theory Spec2Isabelle
  imports Complex_Main "HOL-Library.Word" "HOL-Library.Multiset"
begin

section \<open>Data model of \<^verbatim>\<open>src/sapi/sapi_address.cpp\<close>\<close>

text \<open>
  Hashes (\<^verbatim>\<open>uint256\<close>, \<^verbatim>\<open>uint160\<close>) are opaque identifiers, modelled as natural numbers.
  \<^verbatim>\<open>CAmount\<close> is \<^verbatim>\<open>int64_t\<close>; the ledger bounds every amount and every sum of amounts
  of one address by \<^verbatim>\<open>MAX_MONEY\<close>, far below \<open>2 ^ 63\<close>, so the additions of the source
  never wrap and \<^verbatim>\<open>CAmount\<close> is modelled as \<open>int\<close>.
\<close>

type_synonym uint256 = nat
type_synonym uint160 = nat
type_synonym CAmount = int

text \<open>
  Error codes of namespace \<^verbatim>\<open>SAPI\<close> and of \<^verbatim>\<open>HTTPStatus\<close> that this file uses, and the
  reply written by \<^verbatim>\<open>SAPI::Error\<close>: one code with its message, or the collected list.
\<close>

datatype Codes =
    BlockNotFound | TxNotFound | InvalidSmartCashAddress | AddressNotFound
  | NoUtxosAvailble | BalanceInsufficient | TimedOut | PageOutOfRange
  | BAD_REQUEST | INTERNAL_SERVER_ERROR

type_synonym Result = "Codes \<times> string"

datatype error = Error Codes string | Errors "Result list"

text \<open>
  A transaction output as \<^verbatim>\<open>IsTimeLocked\<close> reads it: \<open>destination\<close> is what
  \<^verbatim>\<open>ExtractDestination(output.scriptPubKey, addr)\<close> yields (\<open>None\<close> when it returns false,
  the address otherwise), \<open>GetLockTime\<close> is the \<^verbatim>\<open>uint32_t\<close> of \<^verbatim>\<open>vout->GetLockTime()\<close>.
\<close>

record CTxOut =
  destination :: "string option"
  GetLockTime :: "32 word"

record CTransaction =
  GetHash :: uint256
  vout :: "CTxOut list"

record CBlock =
  vtx :: "CTransaction list"

text \<open>
  The chain as the file reads it. \<open>ReadBlockFromDisk h\<close> stands for
  \<^verbatim>\<open>ReadBlockFromDisk(block, chainActive[h], ...)\<close> (\<open>None\<close> when it returns false),
  \<open>Height\<close> for \<^verbatim>\<open>chainActive.Height()\<close> (an \<^verbatim>\<open>int\<close>), \<open>TipMedianTimePast\<close> for
  \<^verbatim>\<open>chainActive.Tip()\<close> (\<open>None\<close> for the null pointer, the tip's \<^verbatim>\<open>GetMedianTimePast()\<close>
  otherwise), \<open>GetTime\<close> for \<^verbatim>\<open>GetTime()\<close>. \<^verbatim>\<open>LOCKTIME_THRESHOLD\<close> is declared in a header
  that is not part of the sources at hand, so it is a parameter.
\<close>

record chain =
  ReadBlockFromDisk :: "int \<Rightarrow> CBlock option"
  Height :: int
  TipMedianTimePast :: "int option"
  GetTime :: int
  LOCKTIME_THRESHOLD :: "32 word"

section \<open>The time-lock evaluator\<close>

text \<open>
  \<^verbatim>\<open>IsTimeLocked\<close> returns false after \<^verbatim>\<open>SAPI::Error\<close> (here \<open>Inl\<close>), or true with the
  out-parameter \<^verbatim>\<open>locked\<close> set (here \<open>Inr locked\<close>). In \<^verbatim>\<open>nCurrentHeight < nLockTime\<close> the
  \<^verbatim>\<open>int\<close> is converted to \<^verbatim>\<open>unsigned int\<close> (\<open>word_of_int\<close>); in
  \<^verbatim>\<open>nCurrentTime < nLockTime\<close> the \<^verbatim>\<open>uint32_t\<close> is widened to \<^verbatim>\<open>int64_t\<close> (\<open>uint\<close>).
\<close>

definition pays_to :: "string \<Rightarrow> CTxOut \<Rightarrow> bool" where
  "pays_to address output =
     (case destination output of None \<Rightarrow> False | Some addr \<Rightarrow> addr = address)"

definition IsTimeLocked :: "chain \<Rightarrow> int \<Rightarrow> uint256 \<Rightarrow> string \<Rightarrow> error + bool" where
  "IsTimeLocked ch blockHeight txhash address =
     (case ReadBlockFromDisk ch blockHeight of
        None \<Rightarrow> Inl (Error BlockNotFound ''Can't read block from disk.'')
      | Some block \<Rightarrow>
          (case find (\<lambda>t. txhash = GetHash t) (vtx block) of
             None \<Rightarrow> Inl (Error TxNotFound ''Can't find Tx ID in block'')
           | Some tx \<Rightarrow>
               (case find (pays_to address) (vout tx) of
                  None \<Rightarrow> Inr False
                | Some output \<Rightarrow>
                    (let nLockTime = GetLockTime output in
                     if nLockTime \<noteq> 0 then
                       (let nCurrentHeight = Height ch;
                            nCurrentTime = (case TipMedianTimePast ch of
                                              Some t \<Rightarrow> t | None \<Rightarrow> GetTime ch)
                        in if (nLockTime < LOCKTIME_THRESHOLD ch
                                 \<and> (word_of_int nCurrentHeight :: 32 word) < nLockTime)
                              \<or> (nLockTime \<ge> LOCKTIME_THRESHOLD ch
                                 \<and> nCurrentTime < uint nLockTime)
                           then Inr True else Inr False)
                     else Inr False))))"

section \<open>The fee schedule\<close>

text \<open>
  \<^verbatim>\<open>CalculateFee\<close> takes an \<^verbatim>\<open>int\<close> and evaluates \<^verbatim>\<open>(nInputs * 148) + (2 * 34) + 10 + 9\<close> in
  \<^verbatim>\<open>int\<close>, that is in 32 bits. \<open>int32\<close> is the value that two's complement arithmetic
  leaves of an integer result (the language leaves the overflow undefined; the processors
  the node runs on wrap around). Wrapping the sum once gives the same value as wrapping
  after each operation.
\<close>

definition int32 :: "int \<Rightarrow> int" where
  "int32 k = sint (word_of_int k :: 32 word)"

text \<open>
  The rest is computed in \<^verbatim>\<open>double\<close> and stored into \<^verbatim>\<open>CAmount\<close> twice; the conversion
  truncates towards zero (\<open>to_CAmount\<close>). The model computes in exact rationals, and the
  \<^verbatim>\<open>double\<close> computation is exact as well: a quotient of a 32-bit integer by \<^verbatim>\<open>1024.0\<close> only
  changes the exponent, its product with \<^verbatim>\<open>100000\<close> is an integer below \<open>2 ^ 53\<close> over
  \<open>2 ^ 10\<close>, and the rounding error of \<^verbatim>\<open>feeCalc / 100000.0\<close> (below \<open>2 ^ (-24)\<close>) is too
  small to move \<^verbatim>\<open>floor(x + 0.5)\<close>, whose argument is a multiple of \<open>1 / 100000\<close>, across an
  integer.
\<close>

definition to_CAmount :: "rat \<Rightarrow> CAmount" where
  "to_CAmount q = (if 0 \<le> q then \<lfloor>q\<rfloor> else \<lceil>q\<rceil>)"

definition feeCalc :: "int \<Rightarrow> CAmount" where
  "feeCalc nInputs =
     (let feeCalc = to_CAmount
            ((rat_of_int (int32 ((nInputs * 148) + (2 * 34) + 10 + 9)) / 1024) * 100000);
          feeCalc = to_CAmount
            (rat_of_int \<lfloor>(rat_of_int feeCalc / 100000) + 1 / 2\<rfloor> * 100000)
      in feeCalc)"

definition CalculateFee :: "int \<Rightarrow> CAmount" where
  "CalculateFee nInputs = max (feeCalc nInputs) 100000"

section \<open>The balance aggregator\<close>

text \<open>
  An entry of the address index is a \<^verbatim>\<open>std::pair<CAddressIndexKey, CAmount>\<close>, a mempool
  delta a \<^verbatim>\<open>std::pair<CMempoolAddressDeltaKey, CMempoolAddressDelta>\<close>; of the latter only
  \<^verbatim>\<open>first.txhash\<close> (\<open>delta_txhash\<close>) and \<^verbatim>\<open>second.amount\<close> (\<open>delta_amount\<close>) are read here.
\<close>

record CAddressIndexKey =
  blockHeight :: int
  txhash :: uint256
  spending :: bool

record CMempoolAddressDelta =
  delta_txhash :: uint256
  delta_amount :: CAmount

record CAddressBalance =
  address :: string
  balance :: CAmount
  locked :: CAmount
  received :: CAmount
  unconfirmed :: CAmount

text \<open>
  The collaborators of the balance and transaction queries: \<^verbatim>\<open>GetIndexKey\<close> of the address
  class, \<^verbatim>\<open>GetAddressIndex\<close>, \<^verbatim>\<open>mempool.getAddressIndex\<close> (each \<open>None\<close> when the call
  returns false), \<^verbatim>\<open>instantsend.IsLockedInstantSendTransaction\<close> and the chain.
\<close>

record ledger =
  GetIndexKey :: "string \<Rightarrow> (uint160 \<times> int) option"
  GetAddressIndex :: "uint160 \<Rightarrow> int \<Rightarrow> (CAddressIndexKey \<times> CAmount) list option"
  mempool_getAddressIndex :: "uint160 \<Rightarrow> int \<Rightarrow> CMempoolAddressDelta list option"
  IsLockedInstantSendTransaction :: "uint256 \<Rightarrow> bool"
  chainActive :: chain

text \<open>
  The loop over the confirmed index entries of one address. The accumulator holds the
  locals \<^verbatim>\<open>balance\<close>, \<^verbatim>\<open>locked\<close>, \<^verbatim>\<open>received\<close>, \<^verbatim>\<open>unconfirmed\<close>; a failing
  \<^verbatim>\<open>IsTimeLocked\<close> makes \<^verbatim>\<open>GetAddressesBalances\<close> return false at once.
\<close>

fun index_loop ::
  "chain \<Rightarrow> string \<Rightarrow> (CAddressIndexKey \<times> CAmount) list \<Rightarrow> CAddressBalance
     \<Rightarrow> error + CAddressBalance" where
  "index_loop ch addr [] acc = Inr acc"
| "index_loop ch addr ((key, value) # rest) acc =
     (case IsTimeLocked ch (blockHeight key) (txhash key) addr of
        Inl e \<Rightarrow> Inl e
      | Inr fLocked \<Rightarrow>
          (let acc1 = (if fLocked then acc\<lparr>locked := locked acc + value\<rparr> else acc);
               acc2 = (if value > 0 then acc1\<lparr>received := received acc1 + value\<rparr> else acc1);
               acc3 = acc2\<lparr>balance := balance acc2 + value\<rparr>
           in index_loop ch addr rest acc3))"

text \<open>
  The loop over the mempool deltas. \<^verbatim>\<open>mapUnconfirmed[txhash] += amount\<close> creates a missing
  entry with value 0 first.
\<close>

definition map_add_amount ::
  "(uint256 \<rightharpoonup> CAmount) \<Rightarrow> uint256 \<Rightarrow> CAmount \<Rightarrow> (uint256 \<rightharpoonup> CAmount)" where
  "map_add_amount m h a = m(h \<mapsto> (case m h of None \<Rightarrow> 0 | Some v \<Rightarrow> v) + a)"

fun mempool_loop ::
  "(uint256 \<Rightarrow> bool) \<Rightarrow> CMempoolAddressDelta list \<Rightarrow> CAddressBalance \<times> (uint256 \<rightharpoonup> CAmount)
     \<Rightarrow> CAddressBalance \<times> (uint256 \<rightharpoonup> CAmount)" where
  "mempool_loop instant [] st = st"
| "mempool_loop instant (d # rest) (acc, mapUnconfirmed) =
     (if instant (delta_txhash d) then
        (let acc1 = (if delta_amount d > 0
                     then acc\<lparr>received := received acc + delta_amount d\<rparr> else acc);
             acc2 = acc1\<lparr>balance := balance acc1 + delta_amount d\<rparr>
         in mempool_loop instant rest (acc2, mapUnconfirmed))
      else
        mempool_loop instant rest
          (acc\<lparr>unconfirmed := unconfirmed acc + delta_amount d\<rparr>,
           map_add_amount mapUnconfirmed (delta_txhash d) (delta_amount d)))"

text \<open>
  The state of \<^verbatim>\<open>GetAddressesBalances\<close>: the local \<^verbatim>\<open>errors\<close> and the two out-parameters.
  The loop over the addresses yields the state and, when a failing \<^verbatim>\<open>IsTimeLocked\<close> ends it
  early, the reply of that call.
\<close>

record balances_state =
  errors :: "Result list"
  vecBalances :: "CAddressBalance list"
  mapUnconfirmed :: "uint256 \<rightharpoonup> CAmount"

fun addresses_loop ::
  "ledger \<Rightarrow> string list \<Rightarrow> balances_state \<Rightarrow> error option \<times> balances_state" where
  "addresses_loop L [] st = (None, st)"
| "addresses_loop L (addrStr # rest) st =
     (case GetIndexKey L addrStr of
        None \<Rightarrow>
          addresses_loop L rest
            (st\<lparr>errors := errors st @ [(InvalidSmartCashAddress, ''Invalid address: '' @ addrStr)]\<rparr>)
      | Some (hashBytes, type) \<Rightarrow>
          (case GetAddressIndex L hashBytes type of
             None \<Rightarrow>
               addresses_loop L rest
                 (st\<lparr>errors := errors st
                        @ [(AddressNotFound, ''No information available for '' @ addrStr)]\<rparr>)
           | Some addressIndex \<Rightarrow>
               (case index_loop (chainActive L) addrStr addressIndex
                       \<lparr>address = addrStr, balance = 0, locked = 0, received = 0,
                        unconfirmed = 0\<rparr> of
                  Inl e \<Rightarrow> (Some e, st)
                | Inr acc \<Rightarrow>
                    (let (acc', mapU) =
                           (case mempool_getAddressIndex L hashBytes type of
                              Some mempoolDelta \<Rightarrow>
                                mempool_loop (IsLockedInstantSendTransaction L) mempoolDelta
                                  (acc, mapUnconfirmed st)
                            | None \<Rightarrow> (acc, mapUnconfirmed st))
                     in addresses_loop L rest
                          (st\<lparr>vecBalances := vecBalances st @ [acc'],
                              mapUnconfirmed := mapU\<rparr>)))))"

text \<open>
  The result of \<^verbatim>\<open>GetAddressesBalances\<close>: the returned flag, the reply written through
  \<^verbatim>\<open>SAPI::Error\<close> when the flag is false, and the out-parameters as the caller finds them.
\<close>

record balances_result =
  ok :: bool
  reply :: "error option"
  out_vecBalances :: "CAddressBalance list"
  out_mapUnconfirmed :: "uint256 \<rightharpoonup> CAmount"

definition GetAddressesBalances ::
  "ledger \<Rightarrow> string list \<Rightarrow> (uint256 \<rightharpoonup> CAmount) \<Rightarrow> balances_result" where
  "GetAddressesBalances L vecAddr mapUnconfirmed0 =
     (case addresses_loop L vecAddr
             \<lparr>errors = [], vecBalances = [], mapUnconfirmed = mapUnconfirmed0\<rparr> of
        (Some e, st) \<Rightarrow>
          \<lparr>ok = False, reply = Some e, out_vecBalances = vecBalances st,
           out_mapUnconfirmed = mapUnconfirmed st\<rparr>
      | (None, st) \<Rightarrow>
          if errors st \<noteq> [] then
            \<lparr>ok = False, reply = Some (Errors (errors st)), out_vecBalances = vecBalances st,
             out_mapUnconfirmed = mapUnconfirmed st\<rparr>
          else if vecBalances st = [] then
            \<lparr>ok = False,
             reply = Some (Error INTERNAL_SERVER_ERROR ''Balance check failed unexpected.''),
             out_vecBalances = vecBalances st, out_mapUnconfirmed = mapUnconfirmed st\<rparr>
          else
            \<lparr>ok = True, reply = None, out_vecBalances = vecBalances st,
             out_mapUnconfirmed = mapUnconfirmed st\<rparr>)"

text \<open>
  The handler of the batch query, \<^verbatim>\<open>address_balances\<close>, is the caller that passes more than
  one address. Its body parameter is checked to be an array and is modelled as the list of
  its strings. \<open>collect_addresses\<close> is its loop that drops repeated addresses. When
  \<^verbatim>\<open>GetAddressesBalances\<close> returns false, which it does exactly when it has written a reply
  (lemma \<open>reply_when_not_ok\<close>), the handler returns false as well and that reply stands;
  otherwise it writes one entry for each element of \<^verbatim>\<open>vecResult\<close>. \<^verbatim>\<open>address_balance\<close>, the
  handler for one address, returns on false in the same way.
\<close>

record balances_entry =
  entry_address :: string
  entry_received :: CAmount
  entry_sent :: CAmount
  entry_total :: CAmount
  entry_locked :: CAmount
  entry_unlocked :: CAmount
  entry_unconfirmed_delta :: CAmount
  entry_unconfirmed_transactions :: "uint256 \<rightharpoonup> CAmount"

fun collect_addresses :: "string list \<Rightarrow> string list \<Rightarrow> string list" where
  "collect_addresses vecAddresses [] = vecAddresses"
| "collect_addresses vecAddresses (addrStr # rest) =
     collect_addresses
       (if addrStr \<notin> set vecAddresses then vecAddresses @ [addrStr] else vecAddresses) rest"

definition address_balances :: "ledger \<Rightarrow> string list \<Rightarrow> error + balances_entry list" where
  "address_balances L bodyParameter =
     (if bodyParameter = [] then
        Inl (Error BAD_REQUEST
               (''Addresses are expedted to be a JSON array: [ '' @ [CHR 0x22] @ ''address''
                @ [CHR 0x22] @ '', ... ]''))
      else
        (let vecAddresses = collect_addresses [] bodyParameter;
             r = GetAddressesBalances L vecAddresses Map.empty
         in if \<not> ok r then (case reply r of Some e \<Rightarrow> Inl e | None \<Rightarrow> Inl (Errors []))
            else Inr (map (\<lambda>result.
                        \<lparr>entry_address = address result,
                         entry_received = received result,
                         entry_sent = received result - balance result,
                         entry_total = balance result,
                         entry_locked = locked result,
                         entry_unlocked = balance result - locked result,
                         entry_unconfirmed_delta = unconfirmed result,
                         entry_unconfirmed_transactions = out_mapUnconfirmed r\<rparr>)
                      (out_vecBalances r))))"


section \<open>The transaction paginator\<close>

text \<open>
  An element of \<^verbatim>\<open>addressTxs\<close> is a \<^verbatim>\<open>std::tuple<uint256, int, CAmount>\<close>.
  \<open>add_to_found\<close> is \<^verbatim>\<open>std::get<2>(*found) += tx->second\<close> for the first element that
  \<^verbatim>\<open>std::find_if\<close> reaches.
\<close>

type_synonym tx_entry = "uint256 \<times> int \<times> CAmount"

fun add_to_found :: "uint256 \<Rightarrow> CAmount \<Rightarrow> tx_entry list \<Rightarrow> tx_entry list" where
  "add_to_found h a [] = []"
| "add_to_found h a ((h', ht, v) # ts) =
     (if h' = h then (h', ht, v + a) # ts else (h', ht, v) # add_to_found h a ts)"

text \<open>
  The \<^verbatim>\<open>while\<close> loop of \<^verbatim>\<open>GetAddressesTransactions\<close>; \<open>pos\<close> is
  \<^verbatim>\<open>std::distance(addressIndex.begin(), tx)\<close>.
\<close>

fun transactions_loop ::
  "int \<Rightarrow> int \<Rightarrow> (CAddressIndexKey \<times> CAmount) list \<Rightarrow> nat \<Rightarrow> tx_entry list \<times> int
     \<Rightarrow> tx_entry list \<times> int" where
  "transactions_loop nIndexOffset pageSize [] pos st = st"
| "transactions_loop nIndexOffset pageSize ((key, value) # rest) pos (addressTxs, totalNumTxs) =
     (case find (\<lambda>t. fst t = txhash key) addressTxs of
        None \<Rightarrow>
          transactions_loop nIndexOffset pageSize rest (pos + 1)
            (if int pos \<ge> nIndexOffset \<and> int (length addressTxs) < pageSize
             then addressTxs @ [(txhash key, blockHeight key, value)] else addressTxs,
             totalNumTxs + 1)
      | Some found \<Rightarrow>
          transactions_loop nIndexOffset pageSize rest (pos + 1)
            (add_to_found (txhash key) value addressTxs, totalNumTxs))"

text \<open>
  \<^verbatim>\<open>static_cast<int>((pageNum - 1) * pageSize)\<close> keeps the low 32 bits of the
  \<^verbatim>\<open>int64_t\<close> product, read as two's complement.
\<close>

definition GetAddressesTransactions ::
  "ledger \<Rightarrow> string \<Rightarrow> int \<Rightarrow> int \<Rightarrow> bool \<Rightarrow> error + (tx_entry list \<times> int)" where
  "GetAddressesTransactions L addrStr pageNum pageSize ascending =
     (case GetIndexKey L addrStr of
        None \<Rightarrow> Inl (Error InvalidSmartCashAddress (''Invalid address: '' @ addrStr))
      | Some (hashBytes, type) \<Rightarrow>
          (case GetAddressIndex L hashBytes type of
             None \<Rightarrow> Inl (Error AddressNotFound (''No information available for '' @ addrStr))
           | Some addressIndex \<Rightarrow>
               (let addressIndex' = (if \<not> ascending then rev addressIndex else addressIndex);
                    nIndexOffset = sint (word_of_int ((pageNum - 1) * pageSize) :: 32 word)
                in Inr (transactions_loop nIndexOffset pageSize addressIndex' 0 ([], 0)))))"

section \<open>The UTXO selection solver\<close>

text \<open>
  An unspent output is a \<^verbatim>\<open>std::pair<CAddressUnspentKey, CAddressUnspentValue>\<close>; the
  fields read here are \<^verbatim>\<open>first.txhash\<close> (\<open>utxo_txhash\<close>), \<^verbatim>\<open>first.index\<close> (\<open>utxo_index\<close>),
  \<^verbatim>\<open>first.nBlockHeight\<close> and \<^verbatim>\<open>second.satoshis\<close>.
\<close>

record CAddressUnspentKey =
  utxo_txhash :: uint256
  utxo_index :: nat
  nBlockHeight :: int

record CAddressUnspentValue =
  satoshis :: CAmount

type_synonym utxo = "CAddressUnspentKey \<times> CAddressUnspentValue"

text \<open>
  Modelled from the spec: \<^verbatim>\<open>operator==\<close> of \<^verbatim>\<open>CAddressUnspentKey\<close>, declared in a header that
  is not part of the sources at hand. The spec identifies an unspent output by
  \<open>(txid, outputIndex)\<close>.
\<close>

definition outpoint :: "utxo \<Rightarrow> uint256 \<times> nat" where
  "outpoint u = (utxo_txhash (fst u), utxo_index (fst u))"

definition key_eq :: "CAddressUnspentKey \<Rightarrow> CAddressUnspentKey \<Rightarrow> bool" where
  "key_eq a b = (utxo_txhash a = utxo_txhash b \<and> utxo_index a = utxo_index b)"

record CUnspentSolution =
  amount :: CAmount
  fee :: CAmount
  change :: CAmount
  vecUtxos :: "utxo list"

text \<open>
  Modelled from the spec: \<^verbatim>\<open>CUnspentSolution::SetNull\<close> and \<^verbatim>\<open>IsNull\<close>, declared with the
  class in a header that is not part of the sources at hand. Resetting the running
  solution empties it; a solution exists when it holds an output.
\<close>

definition SetNull :: CUnspentSolution where
  "SetNull = \<lparr>amount = 0, fee = 0, change = 0, vecUtxos = []\<rparr>"

definition IsNull :: "CUnspentSolution \<Rightarrow> bool" where
  "IsNull s = (vecUtxos s = [])"

definition AddUtxo :: "CUnspentSolution \<Rightarrow> utxo \<Rightarrow> CUnspentSolution" where
  "AddUtxo s utxo =
     (case find (\<lambda>entry. key_eq (fst utxo) (fst entry)) (vecUtxos s) of
        None \<Rightarrow>
          (let s1 = s\<lparr>amount := amount s + satoshis (snd utxo)\<rparr>;
               s2 = s1\<lparr>vecUtxos := vecUtxos s1 @ [utxo]\<rparr>
           in s2\<lparr>fee := CalculateFee (int (length (vecUtxos s2)))\<rparr>)
      | Some res \<Rightarrow> s)"

text \<open>
  The collaborators of the solver. Each of \<^verbatim>\<open>GetAddressUnspentCount\<close> and
  \<^verbatim>\<open>GetAddressUnspent\<close> is \<open>None\<close> when the call returns false; the latter takes the offset
  and the limit and yields the outputs of the slice (the cursor argument is always the
  default one here). \<open>GetTimeMicros k\<close> is the value of the \<open>k\<close>-th call of
  \<^verbatim>\<open>GetTimeMicros()\<close> within one request, counted from 0. \<open>nRand\<close> is the random number
  that \<^verbatim>\<open>GetRand\<close> reduces, \<open>random_shuffle\<close> the permutation that \<^verbatim>\<open>std::random_shuffle\<close>
  applies in the given round. \<^verbatim>\<open>INSTANTSEND_CONFIRMATIONS_REQUIRED\<close> is declared in a header
  that is not part of the sources at hand, so it is a parameter.
\<close>

record solver = ledger +
  GetAddressUnspentCount :: "uint160 \<Rightarrow> int \<Rightarrow> nat option"
  GetAddressUnspent :: "uint160 \<Rightarrow> int \<Rightarrow> nat \<Rightarrow> nat \<Rightarrow> utxo list option"
  mempool_getSpentIndex :: "uint256 \<Rightarrow> nat \<Rightarrow> bool"
  GetTimeMicros :: "nat \<Rightarrow> int"
  nRand :: nat
  random_shuffle :: "nat \<Rightarrow> utxo list \<Rightarrow> utxo list"
  INSTANTSEND_CONFIRMATIONS_REQUIRED :: int

text \<open>
  Modelled from the spec: \<^verbatim>\<open>GetRand\<close>, defined outside the sources at hand; it yields a
  uniformly random number below its argument.
\<close>

definition GetRand :: "solver \<Rightarrow> nat \<Rightarrow> nat" where
  "GetRand S nMax = nRand S mod nMax"

definition GetUTXOCount :: "solver \<Rightarrow> string \<Rightarrow> error + nat" where
  "GetUTXOCount S addr =
     (case GetIndexKey S addr of
        None \<Rightarrow> Inl (Error InvalidSmartCashAddress ''Invalid address'')
      | Some (hashBytes, type) \<Rightarrow>
          (case GetAddressUnspentCount S hashBytes type of
             None \<Rightarrow> Inl (Error AddressNotFound ''No information available for address'')
           | Some nCount \<Rightarrow> Inr nCount))"

definition GetUTXOs :: "solver \<Rightarrow> string \<Rightarrow> nat \<Rightarrow> nat \<Rightarrow> error + utxo list" where
  "GetUTXOs S addr offset limit =
     (case GetIndexKey S addr of
        None \<Rightarrow> Inl (Error InvalidSmartCashAddress ''Invalid address'')
      | Some (hashBytes, type) \<Rightarrow>
          (case GetAddressUnspent S hashBytes type offset limit of
             None \<Rightarrow> Inl (Error AddressNotFound ''No information available for address'')
           | Some utxos \<Rightarrow> Inr utxos))"

text \<open>The body parameters of the request.\<close>

record request =
  addrStr :: string
  expectedAmount :: CAmount
  fRandom :: bool
  fInstantPay :: bool

definition nUtxosSlice :: nat where
  "nUtxosSlice = 2000"

definition nMatchTimeoutMicros :: int where
  "nMatchTimeoutMicros = 5 * 1000000"

text \<open>The loop that erases the time-locked outputs of a slice.\<close>

fun filter_locked :: "chain \<Rightarrow> string \<Rightarrow> utxo list \<Rightarrow> error + utxo list" where
  "filter_locked ch addr [] = Inr []"
| "filter_locked ch addr (u # us) =
     (case IsTimeLocked ch (nBlockHeight (fst u)) (utxo_txhash (fst u)) addr of
        Inl e \<Rightarrow> Inl e
      | Inr fLocked \<Rightarrow>
          (case filter_locked ch addr us of
             Inl e \<Rightarrow> Inl e
           | Inr kept \<Rightarrow> Inr (if fLocked then kept else u # kept)))"

text \<open>
  \<^verbatim>\<open>std::sort\<close> with \<^verbatim>\<open>amountSortHTL\<close>: descending by amount. \<^verbatim>\<open>std::sort\<close> leaves the order
  of outputs of equal amount open; the model keeps their order.
\<close>

definition sort_HTL :: "utxo list \<Rightarrow> utxo list" where
  "sort_HTL us = sort_key (\<lambda>u. - satoshis (snd u)) us"

text \<open>The variables of the \<^verbatim>\<open>do\<close> loop that change, and the count of clock readings.\<close>

record loop_state =
  currentSolution :: CUnspentSolution
  bestSolution :: CUnspentSolution
  fTimedOut :: bool
  nPageCurrent :: nat
  nClock :: nat

text \<open>The condition under which the inner loop adds an output.\<close>

definition usable :: "solver \<Rightarrow> request \<Rightarrow> int \<Rightarrow> utxo \<Rightarrow> bool" where
  "usable S req nHeight u =
     (\<not> mempool_getSpentIndex S (utxo_txhash (fst u)) (utxo_index (fst u))
      \<and> (\<not> fInstantPay req
         \<or> (fInstantPay req
            \<and> nHeight - nBlockHeight (fst u) + 1 \<ge> INSTANTSEND_CONFIRMATIONS_REQUIRED S)))"

text \<open>
  The steps of the inner \<^verbatim>\<open>for\<close> loop: \<open>offer\<close> adds the output unless it is to be
  ignored, \<open>reached\<close> is the test \<^verbatim>\<open>currentSolution.amount >= expectedAmount +
  currentSolution.fee\<close>, \<open>set_change\<close> the assignment to \<^verbatim>\<open>currentSolution.change\<close>.
\<close>

definition offer :: "solver \<Rightarrow> request \<Rightarrow> int \<Rightarrow> CUnspentSolution \<Rightarrow> utxo \<Rightarrow> CUnspentSolution" where
  "offer S req nHeight cur u = (if usable S req nHeight u then AddUtxo cur u else cur)"

definition reached :: "request \<Rightarrow> CUnspentSolution \<Rightarrow> bool" where
  "reached req cur = (amount cur \<ge> expectedAmount req + fee cur)"

definition set_change :: "request \<Rightarrow> CUnspentSolution \<Rightarrow> CUnspentSolution" where
  "set_change req cur =
     (if amount cur = expectedAmount req + fee cur then cur\<lparr>change := 0\<rparr>
      else cur\<lparr>change := amount cur - expectedAmount req - fee cur\<rparr>)"

text \<open>The inner \<^verbatim>\<open>for\<close> loop over the ordered slice; every path that leaves it is a \<^verbatim>\<open>break\<close>.\<close>

fun walk :: "solver \<Rightarrow> request \<Rightarrow> int \<Rightarrow> int \<Rightarrow> utxo list \<Rightarrow> loop_state \<Rightarrow> loop_state" where
  "walk S req nTime0 nHeight [] st = st"
| "walk S req nTime0 nHeight (u # us) st =
     (let now = GetTimeMicros S (nClock st);
          st = st\<lparr>nClock := nClock st + 1\<rparr>
      in if now - nTime0 > nMatchTimeoutMicros then st\<lparr>fTimedOut := True\<rparr>
         else
           (let cur = offer S req nHeight (currentSolution st) u
            in if reached req cur then
                 (let cur = set_change req cur
                  in if IsNull (bestSolution st)
                        \<or> (\<not> fRandom req
                           \<and> length (vecUtxos cur) < length (vecUtxos (bestSolution st)))
                     then st\<lparr>bestSolution := cur, currentSolution := SetNull\<rparr>
                     else st\<lparr>currentSolution := cur\<rparr>)
               else walk S req nTime0 nHeight us (st\<lparr>currentSolution := cur\<rparr>)))"

text \<open>
  One round of the \<^verbatim>\<open>do\<close> loop, up to its \<^verbatim>\<open>while\<close> condition: \<open>Inl\<close> for a
  \<^verbatim>\<open>return false\<close>, otherwise whether the round ended in a \<^verbatim>\<open>break\<close>, and the state.
  \<^verbatim>\<open>GetAddressUnspent\<close> is defined outside the sources at hand; as the spec has it, a fetch
  yields the outputs of the slice, which are then the content of \<^verbatim>\<open>unspentOutputs\<close>.
\<close>

definition slice_round ::
  "solver \<Rightarrow> request \<Rightarrow> int \<Rightarrow> int \<Rightarrow> nat \<Rightarrow> nat \<Rightarrow> loop_state \<Rightarrow> error + (bool \<times> loop_state)" where
  "slice_round S req nTime0 nHeight nUtxoCount nPages st =
     (let nIndexOffset = (nPageCurrent st mod nPages) * nUtxosSlice;
          nLimit = (if nUtxoCount mod nUtxosSlice \<noteq> 0 \<and> nPageCurrent st mod nPages = nPages - 1
                    then nUtxoCount mod nUtxosSlice else nUtxosSlice);
          (expired, st) =
             (if \<not> fRandom req
              then (GetTimeMicros S (nClock st) - nTime0 > nMatchTimeoutMicros,
                    st\<lparr>nClock := nClock st + 1\<rparr>)
              else (False, st))
      in if expired then Inr (True, st)
         else
           (case GetUTXOs S (addrStr req) nIndexOffset nLimit of
              Inl e \<Rightarrow> Inl e
            | Inr unspentOutputs \<Rightarrow>
                (case filter_locked (chainActive S) (addrStr req) unspentOutputs of
                   Inl e \<Rightarrow> Inl e
                 | Inr unspentOutputs \<Rightarrow>
                     (let unspentOutputs =
                            (if fRandom req then random_shuffle S (nPageCurrent st) unspentOutputs
                             else sort_HTL unspentOutputs);
                          st = walk S req nTime0 nHeight unspentOutputs st
                      in if \<not> IsNull (bestSolution st) \<and> fRandom req then Inr (True, st)
                         else
                           (let now = GetTimeMicros S (nClock st);
                                st = st\<lparr>nClock := nClock st + 1\<rparr>
                            in if now - nTime0 > nMatchTimeoutMicros
                               then Inr (True, st\<lparr>fTimedOut := True\<rparr>)
                               else Inr (False, st))))))"

text \<open>
  The \<^verbatim>\<open>do ... while ((++nPageCurrent % nPages) != nPageStart)\<close> loop. The first argument
  bounds the number of rounds; \<open>None\<close> means that the bound was reached.
\<close>

fun select_loop ::
  "nat \<Rightarrow> solver \<Rightarrow> request \<Rightarrow> int \<Rightarrow> int \<Rightarrow> nat \<Rightarrow> nat \<Rightarrow> nat \<Rightarrow> loop_state
     \<Rightarrow> (error + loop_state) option" where
  "select_loop 0 S req nTime0 nHeight nUtxoCount nPages nPageStart st = None"
| "select_loop (Suc n) S req nTime0 nHeight nUtxoCount nPages nPageStart st =
     (case slice_round S req nTime0 nHeight nUtxoCount nPages st of
        Inl e \<Rightarrow> Some (Inl e)
      | Inr (broke, st) \<Rightarrow>
          if broke then Some (Inr st)
          else
            (let st = st\<lparr>nPageCurrent := nPageCurrent st + 1\<rparr>
             in if nPageCurrent st mod nPages \<noteq> nPageStart
                then select_loop n S req nTime0 nHeight nUtxoCount nPages nPageStart st
                else Some (Inr st)))"

text \<open>
  \<^verbatim>\<open>address_utxos_amount\<close>, up to the choice of the reply: an error or the best solution,
  whose fields the reply prints. The loop visits each of the \<open>nPages\<close> slices at most once,
  so \<open>nPages\<close> rounds are enough (lemma \<open>address_utxos_amount_returns\<close>). The readings
  \<^verbatim>\<open>nTime1\<close> to \<^verbatim>\<open>nTime4\<close> only feed the log; \<^verbatim>\<open>nTime1\<close> advances the count of readings
  before the loop.
\<close>

definition address_utxos_amount :: "solver \<Rightarrow> request \<Rightarrow> (error + CUnspentSolution) option" where
  "address_utxos_amount S req =
     (let nTime0 = GetTimeMicros S 0 in
      case GetUTXOCount S (addrStr req) of
        Inl e \<Rightarrow> Some (Inl e)
      | Inr nUtxoCount \<Rightarrow>
          if nUtxoCount = 0 then Some (Inl (Error NoUtxosAvailble ''No unspent outputs available''))
          else
            (let nPages = nUtxoCount div nUtxosSlice
                            + (if nUtxoCount mod nUtxosSlice \<noteq> 0 then 1 else 0);
                 nPageStart = GetRand S nPages;
                 nHeight = Height (chainActive S);
                 st0 = \<lparr>currentSolution = SetNull, bestSolution = SetNull, fTimedOut = False,
                        nPageCurrent = nPageStart, nClock = 2\<rparr>
             in case select_loop nPages S req nTime0 nHeight nUtxoCount nPages nPageStart st0 of
                  None \<Rightarrow> None
                | Some (Inl e) \<Rightarrow> Some (Inl e)
                | Some (Inr st) \<Rightarrow>
                    (let st = st\<lparr>nPageCurrent := nPageCurrent st + 1\<rparr>
                     in if nPageCurrent st mod nPages = nPageStart \<and> IsNull (bestSolution st)
                           \<and> \<not> fTimedOut st
                        then Some (Inl (Error BalanceInsufficient ''Requested amount exceeds balance''))
                        else if IsNull (bestSolution st)
                        then Some (Inl (Error TimedOut ''No solution found''))
                        else Some (Inr (bestSolution st)))))"

text \<open>
  Two notions of the specification, for the statements below. \<open>snapshot_sums\<close> says that
  a snapshot's balance is the sum of the confirmed deltas and of the instant-finalized
  mempool deltas, its received total the sum of the positive ones among them, and its
  unconfirmed delta the sum of the other mempool deltas. \<open>processed\<close> holds for an address
  that resolves to an index key for which the address index has an answer.
\<close>

definition snapshot_sums ::
  "ledger \<Rightarrow> (CAddressIndexKey \<times> CAmount) list \<Rightarrow> CMempoolAddressDelta list
     \<Rightarrow> CAddressBalance \<Rightarrow> bool" where
  "snapshot_sums L addressIndex mempoolDelta b =
     (balance b = sum_list (map snd addressIndex)
        + sum_list (map delta_amount
            (filter (\<lambda>d. IsLockedInstantSendTransaction L (delta_txhash d)) mempoolDelta))
      \<and> received b = sum_list (filter (\<lambda>v. v > 0) (map snd addressIndex))
        + sum_list (filter (\<lambda>v. v > 0) (map delta_amount
            (filter (\<lambda>d. IsLockedInstantSendTransaction L (delta_txhash d)) mempoolDelta)))
      \<and> unconfirmed b = sum_list (map delta_amount
            (filter (\<lambda>d. \<not> IsLockedInstantSendTransaction L (delta_txhash d)) mempoolDelta)))"

definition processed :: "ledger \<Rightarrow> string \<Rightarrow> bool" where
  "processed L a =
     (case GetIndexKey L a of None \<Rightarrow> False
      | Some (hashBytes, type) \<Rightarrow> GetAddressIndex L hashBytes type \<noteq> None)"

text \<open>
  Notions for the statements about the solver. A solution is \<open>consistent\<close> when its amount
  is the sum of its outputs and no outpoint occurs twice, and \<open>satisfying\<close> when its amount
  reaches the requested amount plus its fee and its change is the rest. \<open>loop_inv\<close> is the
  invariant of the loops: the running solution is consistent, and the best solution, once
  there is one, is consistent and satisfying.
\<close>

definition consistent :: "CUnspentSolution \<Rightarrow> bool" where
  "consistent s =
     (amount s = sum_list (map (\<lambda>u. satoshis (snd u)) (vecUtxos s))
      \<and> distinct (map outpoint (vecUtxos s)))"

definition satisfying :: "request \<Rightarrow> CUnspentSolution \<Rightarrow> bool" where
  "satisfying req s =
     (amount s \<ge> expectedAmount req + fee s
      \<and> change s = amount s - expectedAmount req - fee s)"

definition loop_inv :: "request \<Rightarrow> loop_state \<Rightarrow> bool" where
  "loop_inv req st =
     (consistent (currentSolution st)
      \<and> (IsNull (bestSolution st)
          \<or> (consistent (bestSolution st) \<and> satisfying req (bestSolution st))))"

text \<open>
  The outputs of a fetched slice that the inner loop adds when it reaches them: those not
  time-locked and not to be ignored. A list of outputs \<open>covers\<close> the request when its sum
  reaches the requested amount plus the fee for that many inputs.
\<close>

definition candidates :: "solver \<Rightarrow> request \<Rightarrow> utxo list \<Rightarrow> utxo list" where
  "candidates S req outputs =
     filter (\<lambda>u. IsTimeLocked (chainActive S) (nBlockHeight (fst u)) (utxo_txhash (fst u))
                   (addrStr req) = Inr False
                \<and> usable S req (Height (chainActive S)) u) outputs"

definition covers :: "request \<Rightarrow> utxo list \<Rightarrow> bool" where
  "covers req T =
     (sum_list (map (\<lambda>u. satoshis (snd u)) T)
        \<ge> expectedAmount req + CalculateFee (int (length T)))"

section \<open>Example inputs\<close>

text \<open>
  A chain of height 100 with two blocks on disk. The block at height 1 holds transaction 7,
  which pays to the addresses \<open>A\<close> and \<open>L\<close> without a lock, and transactions 5 and 6, which
  pay to address \<open>T\<close>. The block at height 2 holds transaction 9, which pays to address \<open>L\<close>
  with a lock up to height 1000.
\<close>

definition ex_tx7 :: CTransaction where
  "ex_tx7 = \<lparr>GetHash = 7, vout = [\<lparr>destination = Some ''A'', GetLockTime = 0\<rparr>,
                                  \<lparr>destination = Some ''L'', GetLockTime = 0\<rparr>]\<rparr>"

definition ex_block1 :: CBlock where
  "ex_block1 =
     \<lparr>vtx = [ex_tx7,
             \<lparr>GetHash = 5, vout = [\<lparr>destination = Some ''T'', GetLockTime = 0\<rparr>]\<rparr>,
             \<lparr>GetHash = 6, vout = [\<lparr>destination = Some ''T'', GetLockTime = 0\<rparr>,
                                  \<lparr>destination = Some ''T'', GetLockTime = 0\<rparr>]\<rparr>]\<rparr>"

definition ex_block2 :: CBlock where
  "ex_block2 =
     \<lparr>vtx = [\<lparr>GetHash = 9, vout = [\<lparr>destination = Some ''L'', GetLockTime = 1000\<rparr>]\<rparr>]\<rparr>"

definition ex_chain :: chain where
  "ex_chain =
     \<lparr>ReadBlockFromDisk =
        (\<lambda>h. if h = 1 then Some ex_block1 else if h = 2 then Some ex_block2 else None),
      Height = 100, TipMedianTimePast = Some 1600000000, GetTime = 1600000000,
      LOCKTIME_THRESHOLD = 500000000\<rparr>"

text \<open>
  A ledger over that chain. Address \<open>A\<close> has one confirmed receive of 1000 and one mempool
  spend of 400 that is not instant-finalized. Address \<open>L\<close> received 1000 from transaction 7,
  spent them in transaction 9 and received 900 back from it, time-locked. Address \<open>T\<close> has
  one entry of transaction 5 and two entries of transaction 6. No other string resolves to
  an index key.
\<close>

definition ex_ledger :: ledger where
  "ex_ledger =
     \<lparr>GetIndexKey =
        (\<lambda>a. if a = ''A'' then Some (1, 0) else if a = ''L'' then Some (2, 0)
              else if a = ''T'' then Some (3, 0) else None),
      GetAddressIndex =
        (\<lambda>h t. if h = 1 then Some [(\<lparr>blockHeight = 1, txhash = 7, spending = False\<rparr>, 1000)]
                else if h = 2 then
                  Some [(\<lparr>blockHeight = 1, txhash = 7, spending = False\<rparr>, 1000),
                        (\<lparr>blockHeight = 2, txhash = 9, spending = True\<rparr>, - 1000),
                        (\<lparr>blockHeight = 2, txhash = 9, spending = False\<rparr>, 900)]
                else if h = 3 then
                  Some [(\<lparr>blockHeight = 1, txhash = 5, spending = False\<rparr>, 5),
                        (\<lparr>blockHeight = 1, txhash = 6, spending = False\<rparr>, 3),
                        (\<lparr>blockHeight = 1, txhash = 6, spending = False\<rparr>, 4)]
                else None),
      mempool_getAddressIndex =
        (\<lambda>h t. if h = 1 then Some [\<lparr>delta_txhash = 8, delta_amount = - 400\<rparr>] else Some []),
      IsLockedInstantSendTransaction = (\<lambda>h. False),
      chainActive = ex_chain\<rparr>"

text \<open>
  A solver whose index holds the given unspent outputs of address \<open>A\<close>, served in slices
  of the list. Nothing is spent in the mempool and the clock stands still.
\<close>

definition mk_utxo :: "nat \<Rightarrow> CAmount \<Rightarrow> utxo" where
  "mk_utxo i a = (\<lparr>utxo_txhash = 7, utxo_index = i, nBlockHeight = 1\<rparr>, \<lparr>satoshis = a\<rparr>)"

definition ex_solver :: "utxo list \<Rightarrow> solver" where
  "ex_solver us =
     \<lparr>GetIndexKey = (\<lambda>a. if a = ''A'' then Some (1, 0) else None),
      GetAddressIndex = (\<lambda>h t. None),
      mempool_getAddressIndex = (\<lambda>h t. Some []),
      IsLockedInstantSendTransaction = (\<lambda>h. False),
      chainActive = ex_chain,
      GetAddressUnspentCount = (\<lambda>h t. Some (length us)),
      GetAddressUnspent = (\<lambda>h t offset limit. Some (take limit (drop offset us))),
      mempool_getSpentIndex = (\<lambda>h i. False),
      GetTimeMicros = (\<lambda>k. 0),
      nRand = 0,
      random_shuffle = (\<lambda>k us. us),
      INSTANTSEND_CONFIRMATIONS_REQUIRED = 2\<rparr>"

text \<open>
  Two thousand unspent outputs of one satoshi each: the outputs 0 to 1999 of transaction 7.
  They fill one slice.
\<close>

definition small_outputs :: "utxo list" where
  "small_outputs = map (\<lambda>i. mk_utxo i 1) [0..<2000]"

definition ex_request :: request where
  "ex_request =
     \<lparr>addrStr = ''A'', expectedAmount = 600000000, fRandom = False, fInstantPay = False\<rparr>"

section \<open>Properties of the fee schedule\<close>

lemma int32_id: "- 2147483648 \<le> k \<Longrightarrow> k < 2147483648 \<Longrightarrow> int32 k = k"
  by (simp add: int32_def sint_sbintrunc' signed_take_bit_int_eq_self)

lemma to_CAmount_mono: "p \<le> q \<Longrightarrow> to_CAmount p \<le> to_CAmount q"
proof -
  assume pq: "p \<le> q"
  show ?thesis
  proof (cases "0 \<le> p")
    case True
    with pq show ?thesis by (simp add: to_CAmount_def floor_mono)
  next
    case False
    note np = this
    show ?thesis
    proof (cases "0 \<le> q")
      case True
      have "\<lceil>p\<rceil> \<le> 0" using np by (simp add: ceiling_le_zero)
      moreover have "0 \<le> \<lfloor>q\<rfloor>" using True by simp
      ultimately have "\<lceil>p\<rceil> \<le> \<lfloor>q\<rfloor>" by (rule order_trans)
      then show ?thesis using np True by (simp add: to_CAmount_def)
    next
      case False
      with np pq show ?thesis by (simp add: to_CAmount_def ceiling_mono)
    qed
  qed
qed

lemma to_CAmount_of_int: "to_CAmount (rat_of_int k) = k"
  by (simp add: to_CAmount_def)

text \<open>The two roundings, as a function of the value of the 32-bit expression.\<close>

lemma fee_steps_mono:
  assumes "x \<le> y"
  shows "to_CAmount (rat_of_int
            \<lfloor>rat_of_int (to_CAmount ((rat_of_int x / 1024) * 100000)) / 100000 + 1 / 2\<rfloor> * 100000)
         \<le> to_CAmount (rat_of_int
            \<lfloor>rat_of_int (to_CAmount ((rat_of_int y / 1024) * 100000)) / 100000 + 1 / 2\<rfloor> * 100000)"
proof -
  let ?a = "\<lambda>k::int. to_CAmount ((rat_of_int k / 1024) * 100000)"
  have "(rat_of_int x / 1024) * 100000 \<le> (rat_of_int y / 1024) * 100000"
    using assms by (simp add: divide_right_mono)
  then have a: "?a x \<le> ?a y" by (rule to_CAmount_mono)
  then have "rat_of_int (?a x) / 100000 + 1 / 2 \<le> rat_of_int (?a y) / 100000 + 1 / 2"
    by (simp add: divide_right_mono)
  then have "\<lfloor>rat_of_int (?a x) / 100000 + 1 / 2\<rfloor> \<le> \<lfloor>rat_of_int (?a y) / 100000 + 1 / 2\<rfloor>"
    by (rule floor_mono)
  then have "rat_of_int \<lfloor>rat_of_int (?a x) / 100000 + 1 / 2\<rfloor> * 100000
             \<le> rat_of_int \<lfloor>rat_of_int (?a y) / 100000 + 1 / 2\<rfloor> * 100000"
    by simp
  then show ?thesis by (rule to_CAmount_mono)
qed

lemma int32_fee_expression:
  "0 \<le> n \<Longrightarrow> n \<le> 14510024 \<Longrightarrow>
     int32 ((n * 148) + (2 * 34) + 10 + 9) = (n * 148) + (2 * 34) + 10 + 9"
  by (rule int32_id) simp_all

lemma feeCalc_mono:
  assumes "0 \<le> m" and "m \<le> n" and "n \<le> 14510024"
  shows "feeCalc m \<le> feeCalc n"
proof -
  have m: "int32 ((m * 148) + (2 * 34) + 10 + 9) = (m * 148) + (2 * 34) + 10 + 9"
    using assms by (intro int32_fee_expression) simp_all
  have n: "int32 ((n * 148) + (2 * 34) + 10 + 9) = (n * 148) + (2 * 34) + 10 + 9"
    using assms by (intro int32_fee_expression) simp_all
  have "(m * 148) + (2 * 34) + 10 + 9 \<le> (n * 148) + (2 * 34) + 10 + 9" using assms(2) by simp
  from fee_steps_mono [OF this] show ?thesis
    unfolding feeCalc_def Let_def m n .
qed

text \<open>
  Where the 32-bit expression does not overflow, the schedule is integer arithmetic.
\<close>

lemma feeCalc_div:
  assumes "0 \<le> n" and "n \<le> 14510024"
  shows "feeCalc n = ((((n * 148 + 87) * 100000) div 1024 + 50000) div 100000) * 100000"
proof -
  let ?x = "n * 148 + 87"
  have x0: "0 \<le> ?x" using assms by simp
  have i: "int32 ((n * 148) + (2 * 34) + 10 + 9) = ?x"
    using int32_fee_expression [OF assms] by simp
  have e1: "(rat_of_int ?x / 1024) * 100000 = rat_of_int (?x * 100000) / rat_of_int 1024"
    by simp
  have nn: "0 \<le> rat_of_int (?x * 100000) / rat_of_int 1024"
    using x0 by simp
  have a: "to_CAmount ((rat_of_int ?x / 1024) * 100000) = (?x * 100000) div 1024"
    unfolding e1 using nn by (simp only: to_CAmount_def if_True floor_divide_of_int_eq)
  let ?f = "(?x * 100000) div 1024"
  have e2: "rat_of_int ?f / 100000 + 1 / 2 = rat_of_int (?f + 50000) / rat_of_int 100000"
    by (simp add: field_simps)
  have b: "\<lfloor>rat_of_int ?f / 100000 + 1 / 2\<rfloor> = (?f + 50000) div 100000"
    unfolding e2 by (simp only: floor_divide_of_int_eq)
  have e3: "rat_of_int ((?f + 50000) div 100000) * 100000
            = rat_of_int (((?f + 50000) div 100000) * 100000)"
    by simp
  show ?thesis
    unfolding feeCalc_def Let_def i a b e3 to_CAmount_of_int by simp
qed

lemma CalculateFee_div:
  "0 \<le> n \<Longrightarrow> n \<le> 14510024 \<Longrightarrow> CalculateFee n
     = max (((((n * 148 + 87) * 100000) div 1024 + 50000) div 100000) * 100000) 100000"
  by (simp only: CalculateFee_def feeCalc_div)

lemma CalculateFee_floor: "100000 \<le> CalculateFee n"
  by (simp add: CalculateFee_def)

text \<open>Where the 32-bit expression has wrapped to a negative value, only the floor is left.\<close>

lemma feeCalc_wrapped:
  assumes "int32 ((n * 148) + (2 * 34) + 10 + 9) \<le> 0"
  shows "feeCalc n \<le> 0"
proof -
  have "to_CAmount (rat_of_int
            \<lfloor>rat_of_int (to_CAmount ((rat_of_int (int32 ((n * 148) + (2 * 34) + 10 + 9)) / 1024)
                 * 100000)) / 100000 + 1 / 2\<rfloor> * 100000)
         \<le> to_CAmount (rat_of_int
            \<lfloor>rat_of_int (to_CAmount ((rat_of_int 0 / 1024) * 100000)) / 100000 + 1 / 2\<rfloor> * 100000)"
    by (rule fee_steps_mono [OF assms])
  also have "\<dots> = 0"
  proof -
    have "\<lfloor>(1::rat) / 2\<rfloor> = 0" by (rule floor_unique) simp_all
    then show ?thesis by (simp add: to_CAmount_def)
  qed
  finally show ?thesis unfolding feeCalc_def Let_def .
qed

text \<open>
  Claim C4, amended. As long as the 32-bit expression does not overflow, that is for every
  input count from 0 to 14510023, the fee does not decrease when one more input is
  selected. For every input count the fee is the maximum of the computed step value and
  the floor of 100000: where the step value is below the floor, the fee is the floor.
\<close>

theorem CalculateFee_monotone:
  "(0 \<le> n \<and> n < 14510024 \<longrightarrow> CalculateFee n \<le> CalculateFee (n + 1))
   \<and> CalculateFee n = max (feeCalc n) 100000
   \<and> (feeCalc n < 100000 \<longrightarrow> CalculateFee n = 100000)"
proof -
  have "feeCalc n \<le> feeCalc (n + 1)" if "0 \<le> n" and "n < 14510024"
    by (rule feeCalc_mono) (use that in simp_all)
  then show ?thesis by (auto simp: CalculateFee_def)
qed

theorem CalculateFee_monotone_witness:
  "(0::int) \<le> 2 \<and> (2::int) < 14510024 \<and> CalculateFee 2 \<le> CalculateFee (2 + 1)
   \<and> feeCalc 2 < 100000 \<and> CalculateFee 2 = 100000"
proof -
  have f: "feeCalc 2 < 100000" by (simp add: feeCalc_div)
  show ?thesis using CalculateFee_monotone [of 2] f by simp
qed

text \<open>
  Claim C4 as stated fails where the 32-bit expression overflows: from 14510024 inputs to
  14510025 the product exceeds \<open>2 ^ 31 - 1\<close>, the wrapped value is negative, and the fee
  drops from 209715200000 to the floor.
\<close>

theorem CalculateFee_drops_at_overflow:
  "CalculateFee 14510024 = 209715200000
   \<and> CalculateFee (14510024 + 1) = 100000
   \<and> \<not> CalculateFee 14510024 \<le> CalculateFee (14510024 + 1)"
proof -
  have a: "CalculateFee 14510024 = 209715200000" by (simp add: CalculateFee_div)
  have "int32 ((14510025 * 148) + (2 * 34) + 10 + 9) \<le> 0" by (simp add: int32_def)
  from feeCalc_wrapped [OF this] have b: "CalculateFee 14510025 = 100000"
    by (simp add: CalculateFee_def)
  from a b show ?thesis by simp
qed

section \<open>Properties of the time-lock evaluator\<close>

text \<open>
  Claim C9. When the owning block is read and the transaction is found in it, but none of
  its outputs decodes to the given address, the evaluator succeeds and reports the output
  as not locked.
\<close>

theorem IsTimeLocked_no_matching_output:
  assumes "ReadBlockFromDisk ch h = Some block"
    and "find (\<lambda>t. txid = GetHash t) (vtx block) = Some tx"
    and "\<forall>output \<in> set (vout tx). destination output \<noteq> Some addr"
  shows "IsTimeLocked ch h txid addr = Inr False"
proof -
  have "find (pays_to addr) (vout tx) = None"
    using assms(3) by (auto simp: find_None_iff pays_to_def split: option.splits)
  with assms(1,2) show ?thesis by (simp add: IsTimeLocked_def)
qed

theorem IsTimeLocked_no_matching_output_witness:
  "ReadBlockFromDisk ex_chain 1 = Some ex_block1
   \<and> find (\<lambda>t. 7 = GetHash t) (vtx ex_block1) = Some ex_tx7
   \<and> map destination (vout ex_tx7) = [Some ''A'', Some ''L'']
   \<and> IsTimeLocked ex_chain 1 7 ''B'' = Inr False"
proof -
  have b: "ReadBlockFromDisk ex_chain 1 = Some ex_block1" by (simp add: ex_chain_def)
  have t: "find (\<lambda>t. 7 = GetHash t) (vtx ex_block1) = Some ex_tx7"
    by (simp add: ex_block1_def ex_tx7_def)
  have o: "\<forall>output \<in> set (vout ex_tx7). destination output \<noteq> Some ''B''"
    by (simp add: ex_tx7_def)
  have m: "map destination (vout ex_tx7) = [Some ''A'', Some ''L'']" by (simp add: ex_tx7_def)
  show ?thesis using IsTimeLocked_no_matching_output [OF b t o] b t m by simp
qed

text \<open>
  Claim C10. When the output that matches the address has the lock value 0, the evaluator
  reports it as not locked, whatever the chain height, the median time and the threshold
  are: the zero test comes before the comparison with the threshold.
\<close>

theorem IsTimeLocked_zero_lock:
  assumes "ReadBlockFromDisk ch h = Some block"
    and "find (\<lambda>t. txid = GetHash t) (vtx block) = Some tx"
    and "find (pays_to addr) (vout tx) = Some output"
    and "GetLockTime output = 0"
  shows "IsTimeLocked ch h txid addr = Inr False"
  using assms by (simp add: IsTimeLocked_def)

theorem IsTimeLocked_zero_lock_witness:
  "ReadBlockFromDisk (ex_chain\<lparr>Height := - 1, TipMedianTimePast := None, GetTime := - 5\<rparr>) 1
     = Some ex_block1
   \<and> find (\<lambda>t. 7 = GetHash t) (vtx ex_block1) = Some ex_tx7
   \<and> find (pays_to ''A'') (vout ex_tx7) = Some \<lparr>destination = Some ''A'', GetLockTime = 0\<rparr>
   \<and> GetLockTime \<lparr>destination = Some ''A'', GetLockTime = 0\<rparr> = 0
   \<and> IsTimeLocked (ex_chain\<lparr>Height := - 1, TipMedianTimePast := None, GetTime := - 5\<rparr>) 1 7 ''A''
       = Inr False"
proof -
  let ?ch = "ex_chain\<lparr>Height := - 1, TipMedianTimePast := None, GetTime := - 5\<rparr>"
  let ?out = "\<lparr>destination = Some ''A'', GetLockTime = 0\<rparr>"
  have b: "ReadBlockFromDisk ?ch 1 = Some ex_block1" by (simp add: ex_chain_def)
  have t: "find (\<lambda>t. 7 = GetHash t) (vtx ex_block1) = Some ex_tx7"
    by (simp add: ex_block1_def ex_tx7_def)
  have o: "find (pays_to ''A'') (vout ex_tx7) = Some ?out" by (simp add: pays_to_def ex_tx7_def)
  have z: "GetLockTime ?out = 0" by simp
  show ?thesis using IsTimeLocked_zero_lock [OF b t o z] b t o z by simp
qed

section \<open>Properties of the balance aggregator\<close>



lemma index_loop_sums:
  "index_loop ch a idx acc = Inr acc' \<Longrightarrow>
     balance acc' = balance acc + sum_list (map snd idx)
     \<and> received acc' = received acc + sum_list (filter (\<lambda>v. v > 0) (map snd idx))
     \<and> unconfirmed acc' = unconfirmed acc \<and> address acc' = address acc"
proof (induction idx arbitrary: acc)
  case Nil
  then show ?case by simp
next
  case (Cons x idx)
  obtain key v where x: "x = (key, v)" by (cases x)
  from Cons.prems obtain fLocked acc3 where
    a3: "index_loop ch a idx acc3 = Inr acc'"
    and b3: "balance acc3 = balance acc + v"
    and r3: "received acc3 = (if v > 0 then received acc + v else received acc)"
    and u3: "unconfirmed acc3 = unconfirmed acc" and d3: "address acc3 = address acc"
    by (auto simp: x Let_def split: sum.splits if_splits)
  from Cons.IH [OF a3] b3 r3 u3 d3 show ?case by (simp add: x)
qed

lemma mempool_loop_sums:
  "mempool_loop inst ds (acc, m) = (acc', m') \<Longrightarrow>
     balance acc' = balance acc
        + sum_list (map delta_amount (filter (\<lambda>d. inst (delta_txhash d)) ds))
     \<and> received acc' = received acc
        + sum_list (filter (\<lambda>v. v > 0)
            (map delta_amount (filter (\<lambda>d. inst (delta_txhash d)) ds)))
     \<and> unconfirmed acc' = unconfirmed acc
        + sum_list (map delta_amount (filter (\<lambda>d. \<not> inst (delta_txhash d)) ds))
     \<and> locked acc' = locked acc \<and> address acc' = address acc"
proof (induction ds arbitrary: acc m)
  case Nil
  then show ?case by simp
next
  case (Cons d ds)
  show ?case
  proof (cases "inst (delta_txhash d)")
    case True
    let ?acc2 = "(if delta_amount d > 0 then acc\<lparr>received := received acc + delta_amount d\<rparr> else acc)
                   \<lparr>balance := balance acc + delta_amount d\<rparr>"
    have "mempool_loop inst ds (?acc2, m) = (acc', m')"
      using Cons.prems True by (simp add: Let_def split: if_splits)
    from Cons.IH [OF this] True show ?thesis by simp
  next
    case False
    have "mempool_loop inst ds (acc\<lparr>unconfirmed := unconfirmed acc + delta_amount d\<rparr>,
            map_add_amount m (delta_txhash d) (delta_amount d)) = (acc', m')"
      using Cons.prems False by simp
    from Cons.IH [OF this] False show ?thesis by simp
  qed
qed


lemma index_loop_error:
  "index_loop ch a idx acc = Inl e \<Longrightarrow>
     e = Error BlockNotFound ''Can't read block from disk.''
     \<or> e = Error TxNotFound ''Can't find Tx ID in block''"
proof (induction idx arbitrary: acc)
  case Nil
  then show ?case by simp
next
  case (Cons x idx)
  obtain key v where x: "x = (key, v)" by (cases x)
  show ?case
  proof (cases "IsTimeLocked ch (blockHeight key) (txhash key) a")
    case (Inl e')
    then have "e = e'" using Cons.prems by (simp add: x)
    with Inl show ?thesis
      by (auto simp: IsTimeLocked_def Let_def split: option.splits if_splits)
  next
    case (Inr fl)
    with Cons.prems obtain acc3 where "index_loop ch a idx acc3 = Inl e"
      by (auto simp: x Let_def)
    then show ?thesis by (rule Cons.IH)
  qed
qed

lemma addresses_loop_snapshots:
  assumes "addresses_loop L xs st = (r, st')"
    and "b \<in> set (vecBalances st')"
  shows "b \<in> set (vecBalances st)
     \<or> (\<exists>hashBytes type addressIndex.
          GetIndexKey L (address b) = Some (hashBytes, type)
          \<and> GetAddressIndex L hashBytes type = Some addressIndex
          \<and> snapshot_sums L addressIndex
               (case mempool_getAddressIndex L hashBytes type of Some ds \<Rightarrow> ds | None \<Rightarrow> []) b)"
  using assms
proof (induction xs arbitrary: st)
  case Nil
  then show ?case by simp
next
  case (Cons a xs)
  show ?case
  proof (cases "GetIndexKey L a")
    case None
    with Cons.prems have
      "addresses_loop L xs (st\<lparr>errors := errors st @ [(InvalidSmartCashAddress, ''Invalid address: '' @ a)]\<rparr>) = (r, st')"
      by simp
    from Cons.IH [OF this Cons.prems(2)] show ?thesis by simp
  next
    case (Some k)
    obtain h t where k: "k = (h, t)" by (cases k)
    show ?thesis
    proof (cases "GetAddressIndex L h t")
      case None
      with Cons.prems Some k have
        "addresses_loop L xs (st\<lparr>errors := errors st @ [(AddressNotFound, ''No information available for '' @ a)]\<rparr>) = (r, st')"
        by simp
      from Cons.IH [OF this Cons.prems(2)] show ?thesis by simp
    next
      case idx: (Some addressIndex)
      let ?acc0 = "\<lparr>address = a, balance = 0, locked = 0, received = 0, unconfirmed = 0\<rparr>"
      show ?thesis
      proof (cases "index_loop (chainActive L) a addressIndex ?acc0")
        case (Inl e)
        with Cons.prems Some k idx have "st' = st" by simp
        with Cons.prems(2) show ?thesis by simp
      next
        case (Inr acc)
        let ?ds = "(case mempool_getAddressIndex L h t of Some ds \<Rightarrow> ds | None \<Rightarrow> [])"
        obtain acc' mapU where ml:
          "mempool_loop (IsLockedInstantSendTransaction L) ?ds (acc, mapUnconfirmed st) = (acc', mapU)"
          by (cases "mempool_loop (IsLockedInstantSendTransaction L) ?ds (acc, mapUnconfirmed st)")
        have step: "addresses_loop L xs
                      (st\<lparr>vecBalances := vecBalances st @ [acc'], mapUnconfirmed := mapU\<rparr>) = (r, st')"
          using Cons.prems(1) Some k idx Inr ml by (auto split: option.splits)
        from index_loop_sums [OF Inr] mempool_loop_sums [OF ml]
        have sums: "snapshot_sums L addressIndex ?ds acc'" and ad: "address acc' = a"
          by (simp_all add: snapshot_sums_def)
        from Cons.IH [OF step Cons.prems(2)] show ?thesis
        proof
          assume "b \<in> set (vecBalances (st\<lparr>vecBalances := vecBalances st @ [acc'], mapUnconfirmed := mapU\<rparr>))"
          then have "b \<in> set (vecBalances st) \<or> b = acc'" by auto
          then show ?thesis
          proof
            assume "b = acc'"
            with sums ad Some k idx show ?thesis by auto
          qed simp
        qed simp
      qed
    qed
  qed
qed


lemma addresses_loop_errors_irrelevant:
  "vecBalances st1 = vecBalances st2 \<Longrightarrow> mapUnconfirmed st1 = mapUnconfirmed st2 \<Longrightarrow>
     fst (addresses_loop L xs st1) = fst (addresses_loop L xs st2)
     \<and> vecBalances (snd (addresses_loop L xs st1)) = vecBalances (snd (addresses_loop L xs st2))
     \<and> mapUnconfirmed (snd (addresses_loop L xs st1))
         = mapUnconfirmed (snd (addresses_loop L xs st2))"
proof (induction xs arbitrary: st1 st2)
  case Nil
  then show ?case by simp
next
  case (Cons a xs)
  show ?case
  proof (cases "GetIndexKey L a")
    case None
    then show ?thesis using Cons.IH [of "st1\<lparr>errors := errors st1 @ [(InvalidSmartCashAddress, ''Invalid address: '' @ a)]\<rparr>"
          "st2\<lparr>errors := errors st2 @ [(InvalidSmartCashAddress, ''Invalid address: '' @ a)]\<rparr>"]
        Cons.prems by simp
  next
    case (Some k)
    obtain h t where k: "k = (h, t)" by (cases k)
    show ?thesis
    proof (cases "GetAddressIndex L h t")
      case None
      then show ?thesis using Some k Cons.IH [of "st1\<lparr>errors := errors st1 @ [(AddressNotFound, ''No information available for '' @ a)]\<rparr>"
          "st2\<lparr>errors := errors st2 @ [(AddressNotFound, ''No information available for '' @ a)]\<rparr>"]
        Cons.prems by simp
    next
      case idx: (Some addressIndex)
      let ?acc0 = "\<lparr>address = a, balance = 0, locked = 0, received = 0, unconfirmed = 0\<rparr>"
      show ?thesis
      proof (cases "index_loop (chainActive L) a addressIndex ?acc0")
        case (Inl e)
        with Some k idx Cons.prems show ?thesis by simp
      next
        case (Inr acc)
        let ?ds = "(case mempool_getAddressIndex L h t of Some ds \<Rightarrow> ds | None \<Rightarrow> [])"
        obtain acc' mapU where ml:
          "mempool_loop (IsLockedInstantSendTransaction L) ?ds (acc, mapUnconfirmed st1) = (acc', mapU)"
          by (cases "mempool_loop (IsLockedInstantSendTransaction L) ?ds (acc, mapUnconfirmed st1)")
        have s1: "addresses_loop L (a # xs) st1 = addresses_loop L xs
                      (st1\<lparr>vecBalances := vecBalances st1 @ [acc'], mapUnconfirmed := mapU\<rparr>)"
          using Some k idx Inr ml by (auto split: option.splits)
        have s2: "addresses_loop L (a # xs) st2 = addresses_loop L xs
                      (st2\<lparr>vecBalances := vecBalances st2 @ [acc'], mapUnconfirmed := mapU\<rparr>)"
          using Some k idx Inr ml Cons.prems
          by (cases "mempool_getAddressIndex L h t") simp_all
        show ?thesis unfolding s1 s2
          by (rule Cons.IH) (simp_all add: Cons.prems)
      qed
    qed
  qed
qed

lemma addresses_loop_filter:
  "fst (addresses_loop L xs st)
     = fst (addresses_loop L (filter (\<lambda>x. GetIndexKey L x \<noteq> None) xs) st)
   \<and> vecBalances (snd (addresses_loop L xs st))
     = vecBalances (snd (addresses_loop L (filter (\<lambda>x. GetIndexKey L x \<noteq> None) xs) st))
   \<and> mapUnconfirmed (snd (addresses_loop L xs st))
     = mapUnconfirmed (snd (addresses_loop L (filter (\<lambda>x. GetIndexKey L x \<noteq> None) xs) st))"
proof (induction xs arbitrary: st)
  case Nil
  then show ?case by simp
next
  case (Cons a xs)
  let ?good = "filter (\<lambda>x. GetIndexKey L x \<noteq> None)"
  show ?case
  proof (cases "GetIndexKey L a")
    case None
    let ?st = "st\<lparr>errors := errors st @ [(InvalidSmartCashAddress, ''Invalid address: '' @ a)]\<rparr>"
    have l: "addresses_loop L (a # xs) st = addresses_loop L xs ?st" using None by simp
    have r: "?good (a # xs) = ?good xs" using None by simp
    show ?thesis unfolding l r
      using Cons.IH [of ?st] addresses_loop_errors_irrelevant [of ?st st L "?good xs"] by simp
  next
    case (Some k)
    obtain h t where k: "k = (h, t)" by (cases k)
    have r: "?good (a # xs) = a # ?good xs" using Some by simp
    show ?thesis
    proof (cases "GetAddressIndex L h t")
      case None
      then show ?thesis unfolding r using Some k Cons.IH by simp
    next
      case idx: (Some addressIndex)
      let ?acc0 = "\<lparr>address = a, balance = 0, locked = 0, received = 0, unconfirmed = 0\<rparr>"
      show ?thesis
      proof (cases "index_loop (chainActive L) a addressIndex ?acc0")
        case (Inl e)
        with Some k idx show ?thesis unfolding r by simp
      next
        case (Inr acc)
        then show ?thesis unfolding r using Some k idx Cons.IH
          by (simp split: option.splits prod.splits)
      qed
    qed
  qed
qed

lemma addresses_loop_errors_mono:
  "addresses_loop L xs st = (r, st') \<Longrightarrow> set (errors st) \<subseteq> set (errors st')"
proof (induction xs arbitrary: st)
  case Nil
  then show ?case by simp
next
  case (Cons a xs)
  from Cons.prems show ?case
    by (auto simp: Let_def split: option.splits sum.splits prod.splits dest!: Cons.IH)
qed

lemma addresses_loop_invalid_recorded:
  "a \<in> set xs \<Longrightarrow> GetIndexKey L a = None \<Longrightarrow> addresses_loop L xs st = (None, st') \<Longrightarrow>
     (InvalidSmartCashAddress, ''Invalid address: '' @ a) \<in> set (errors st')"
proof (induction xs arbitrary: st)
  case Nil
  then show ?case by simp
next
  case (Cons x xs)
  show ?case
  proof (cases "x = a")
    case True
    with Cons.prems have "addresses_loop L xs
        (st\<lparr>errors := errors st @ [(InvalidSmartCashAddress, ''Invalid address: '' @ a)]\<rparr>) = (None, st')"
      by simp
    from addresses_loop_errors_mono [OF this] show ?thesis by auto
  next
    case False
    with Cons.prems have ax: "a \<in> set xs" by simp
    from Cons.prems(3) show ?thesis
      by (auto simp: Let_def split: option.splits sum.splits prod.splits
               dest!: Cons.IH [OF ax Cons.prems(2)])
  qed
qed

lemma addresses_loop_fatal:
  "addresses_loop L xs st = (Some e, st') \<Longrightarrow>
     e = Error BlockNotFound ''Can't read block from disk.''
     \<or> e = Error TxNotFound ''Can't find Tx ID in block''"
proof (induction xs arbitrary: st)
  case Nil
  then show ?case by simp
next
  case (Cons a xs)
  from Cons.prems show ?case
    by (auto simp: Let_def split: option.splits sum.splits prod.splits
             dest!: Cons.IH index_loop_error)
qed

lemma addresses_loop_addresses:
  "addresses_loop L xs st = (None, st') \<Longrightarrow>
     map address (vecBalances st') = map address (vecBalances st) @ filter (processed L) xs"
proof (induction xs arbitrary: st)
  case Nil
  then show ?case by simp
next
  case (Cons a xs)
  show ?case
  proof (cases "GetIndexKey L a")
    case None
    with Cons.prems have "addresses_loop L xs
        (st\<lparr>errors := errors st @ [(InvalidSmartCashAddress, ''Invalid address: '' @ a)]\<rparr>) = (None, st')"
      by simp
    from Cons.IH [OF this] None show ?thesis by (simp add: processed_def)
  next
    case (Some k)
    obtain h t where k: "k = (h, t)" by (cases k)
    show ?thesis
    proof (cases "GetAddressIndex L h t")
      case None
      with Cons.prems Some k have "addresses_loop L xs
        (st\<lparr>errors := errors st @ [(AddressNotFound, ''No information available for '' @ a)]\<rparr>) = (None, st')"
        by simp
      from Cons.IH [OF this] None Some k show ?thesis by (simp add: processed_def)
    next
      case idx: (Some addressIndex)
      let ?acc0 = "\<lparr>address = a, balance = 0, locked = 0, received = 0, unconfirmed = 0\<rparr>"
      show ?thesis
      proof (cases "index_loop (chainActive L) a addressIndex ?acc0")
        case (Inl e)
        with Cons.prems Some k idx show ?thesis by simp
      next
        case (Inr acc)
        let ?ds = "(case mempool_getAddressIndex L h t of Some ds \<Rightarrow> ds | None \<Rightarrow> [])"
        obtain acc' mapU where ml:
          "mempool_loop (IsLockedInstantSendTransaction L) ?ds (acc, mapUnconfirmed st) = (acc', mapU)"
          by (cases "mempool_loop (IsLockedInstantSendTransaction L) ?ds (acc, mapUnconfirmed st)")
        have step: "addresses_loop L xs
                      (st\<lparr>vecBalances := vecBalances st @ [acc'], mapUnconfirmed := mapU\<rparr>) = (None, st')"
          using Cons.prems(1) Some k idx Inr ml by (auto split: option.splits)
        from index_loop_sums [OF Inr] mempool_loop_sums [OF ml]
        have ad: "address acc' = a" by simp
        from Cons.IH [OF step] ad Some k idx show ?thesis by (simp add: processed_def)
      qed
    qed
  qed
qed


lemma out_vecBalances_loop:
  "out_vecBalances (GetAddressesBalances L xs m0)
     = vecBalances (snd (addresses_loop L xs \<lparr>errors = [], vecBalances = [], mapUnconfirmed = m0\<rparr>))"
  by (simp add: GetAddressesBalances_def split: prod.splits option.splits)

lemma out_mapUnconfirmed_loop:
  "out_mapUnconfirmed (GetAddressesBalances L xs m0)
     = mapUnconfirmed (snd (addresses_loop L xs \<lparr>errors = [], vecBalances = [], mapUnconfirmed = m0\<rparr>))"
  by (simp add: GetAddressesBalances_def split: prod.splits option.splits)

lemma ex_IsTimeLocked_A: "IsTimeLocked ex_chain 1 7 ''A'' = Inr False"
  by (simp add: IsTimeLocked_def ex_chain_def ex_block1_def ex_tx7_def pays_to_def)

lemma ex_IsTimeLocked_L7: "IsTimeLocked ex_chain 1 7 ''L'' = Inr False"
  by (simp add: IsTimeLocked_def ex_chain_def ex_block1_def ex_tx7_def pays_to_def)

lemma ex_IsTimeLocked_L9: "IsTimeLocked ex_chain 2 9 ''L'' = Inr True"
  by (simp add: IsTimeLocked_def ex_chain_def ex_block2_def pays_to_def)

lemma ex_balances_A:
  "GetAddressesBalances ex_ledger [''A''] Map.empty
     = \<lparr>ok = True, reply = None,
        out_vecBalances = [\<lparr>address = ''A'', balance = 1000, locked = 0, received = 1000,
                            unconfirmed = - 400\<rparr>],
        out_mapUnconfirmed = [8 \<mapsto> - 400]\<rparr>"
  by (simp add: GetAddressesBalances_def ex_ledger_def ex_IsTimeLocked_A map_add_amount_def)

lemma ex_balances_bad_A:
  "GetAddressesBalances ex_ledger [''bad'', ''A''] Map.empty
     = \<lparr>ok = False,
        reply = Some (Errors [(InvalidSmartCashAddress, ''Invalid address: bad'')]),
        out_vecBalances = [\<lparr>address = ''A'', balance = 1000, locked = 0, received = 1000,
                            unconfirmed = - 400\<rparr>],
        out_mapUnconfirmed = [8 \<mapsto> - 400]\<rparr>"
  by (simp add: GetAddressesBalances_def ex_ledger_def ex_IsTimeLocked_A map_add_amount_def)

text \<open>
  Claim C5. Every snapshot that a balance query returns belongs to an address that resolves
  and has index entries; its balance is the sum of all confirmed deltas plus the sum of the
  instant-finalized mempool deltas, its received total is the sum of the positive ones
  among these, and its unconfirmed delta is the sum of the other mempool deltas. The sums
  range over the multisets of the entries, which do not depend on the order of iteration.
  In particular one confirmed receive of 1000 and one mempool spend of 400 that is not
  instant-finalized give balance 1000, received 1000 and unconfirmed delta -400.
\<close>

theorem balance_is_sum_of_deltas:
  "(\<forall>b \<in> set (out_vecBalances (GetAddressesBalances L vecAddr m0)).
      \<exists>hashBytes type addressIndex mempoolDelta.
        GetIndexKey L (address b) = Some (hashBytes, type)
        \<and> GetAddressIndex L hashBytes type = Some addressIndex
        \<and> mempoolDelta
            = (case mempool_getAddressIndex L hashBytes type of Some ds \<Rightarrow> ds | None \<Rightarrow> [])
        \<and> balance b
            = sum_mset (image_mset snd (mset addressIndex))
              + sum_mset (image_mset delta_amount
                  (filter_mset (\<lambda>d. IsLockedInstantSendTransaction L (delta_txhash d))
                     (mset mempoolDelta)))
        \<and> received b
            = sum_mset (filter_mset (\<lambda>v. 0 < v) (image_mset snd (mset addressIndex)))
              + sum_mset (filter_mset (\<lambda>v. 0 < v) (image_mset delta_amount
                  (filter_mset (\<lambda>d. IsLockedInstantSendTransaction L (delta_txhash d))
                     (mset mempoolDelta))))
        \<and> unconfirmed b
            = sum_mset (image_mset delta_amount
                  (filter_mset (\<lambda>d. \<not> IsLockedInstantSendTransaction L (delta_txhash d))
                     (mset mempoolDelta))))
   \<and> out_vecBalances (GetAddressesBalances ex_ledger [''A''] Map.empty)
       = [\<lparr>address = ''A'', balance = 1000, locked = 0, received = 1000, unconfirmed = - 400\<rparr>]"
proof (intro conjI ballI)
  fix b
  assume "b \<in> set (out_vecBalances (GetAddressesBalances L vecAddr m0))"
  then have b: "b \<in> set (vecBalances (snd (addresses_loop L vecAddr
                   \<lparr>errors = [], vecBalances = [], mapUnconfirmed = m0\<rparr>)))"
    by (simp only: out_vecBalances_loop)
  obtain r st' where l: "addresses_loop L vecAddr
       \<lparr>errors = [], vecBalances = [], mapUnconfirmed = m0\<rparr> = (r, st')"
    by (cases "addresses_loop L vecAddr \<lparr>errors = [], vecBalances = [], mapUnconfirmed = m0\<rparr>")
  from b l have "b \<in> set (vecBalances st')" by simp
  from addresses_loop_snapshots [OF l this]
  obtain hashBytes type addressIndex where
    k: "GetIndexKey L (address b) = Some (hashBytes, type)"
    and i: "GetAddressIndex L hashBytes type = Some addressIndex"
    and s: "snapshot_sums L addressIndex
              (case mempool_getAddressIndex L hashBytes type of Some ds \<Rightarrow> ds | None \<Rightarrow> []) b"
    by auto
  have conv: "\<And>xs :: int list. sum_list xs = sum_mset (mset xs)"
    by (simp add: sum_mset_sum_list)
  from s have
    "snapshot_sums L addressIndex
       (case mempool_getAddressIndex L hashBytes type of Some ds \<Rightarrow> ds | None \<Rightarrow> []) b"
    by simp
  then show "\<exists>hashBytes type addressIndex mempoolDelta.
        GetIndexKey L (address b) = Some (hashBytes, type)
        \<and> GetAddressIndex L hashBytes type = Some addressIndex
        \<and> mempoolDelta
            = (case mempool_getAddressIndex L hashBytes type of Some ds \<Rightarrow> ds | None \<Rightarrow> [])
        \<and> balance b
            = sum_mset (image_mset snd (mset addressIndex))
              + sum_mset (image_mset delta_amount
                  (filter_mset (\<lambda>d. IsLockedInstantSendTransaction L (delta_txhash d))
                     (mset mempoolDelta)))
        \<and> received b
            = sum_mset (filter_mset (\<lambda>v. 0 < v) (image_mset snd (mset addressIndex)))
              + sum_mset (filter_mset (\<lambda>v. 0 < v) (image_mset delta_amount
                  (filter_mset (\<lambda>d. IsLockedInstantSendTransaction L (delta_txhash d))
                     (mset mempoolDelta))))
        \<and> unconfirmed b
            = sum_mset (image_mset delta_amount
                  (filter_mset (\<lambda>d. \<not> IsLockedInstantSendTransaction L (delta_txhash d))
                     (mset mempoolDelta)))"
    using k i unfolding snapshot_sums_def conv mset_map mset_filter by blast
next
  show "out_vecBalances (GetAddressesBalances ex_ledger [''A''] Map.empty)
       = [\<lparr>address = ''A'', balance = 1000, locked = 0, received = 1000, unconfirmed = - 400\<rparr>]"
    by (simp add: ex_balances_A)
qed

theorem balance_is_sum_of_deltas_witness:
  "\<lparr>address = ''A'', balance = 1000, locked = 0, received = 1000, unconfirmed = - 400\<rparr>
     \<in> set (out_vecBalances (GetAddressesBalances ex_ledger [''A''] Map.empty))
   \<and> (\<exists>addressIndex mempoolDelta.
        GetAddressIndex ex_ledger 1 0 = Some addressIndex
        \<and> mempoolDelta = (case mempool_getAddressIndex ex_ledger 1 0 of Some ds \<Rightarrow> ds | None \<Rightarrow> [])
        \<and> (1000::int)
            = sum_mset (image_mset snd (mset addressIndex))
              + sum_mset (image_mset delta_amount
                  (filter_mset (\<lambda>d. IsLockedInstantSendTransaction ex_ledger (delta_txhash d))
                     (mset mempoolDelta)))
        \<and> (- 400::int)
            = sum_mset (image_mset delta_amount
                  (filter_mset (\<lambda>d. \<not> IsLockedInstantSendTransaction ex_ledger (delta_txhash d))
                     (mset mempoolDelta))))"
proof -
  let ?b = "\<lparr>address = ''A'', balance = 1000, locked = 0, received = 1000, unconfirmed = - 400\<rparr>"
  have h: "?b \<in> set (out_vecBalances (GetAddressesBalances ex_ledger [''A''] Map.empty))"
    by (simp add: ex_balances_A)
  have k: "GetIndexKey ex_ledger ''A'' = Some (1, 0)" by (simp add: ex_ledger_def)
  from balance_is_sum_of_deltas [THEN conjunct1, THEN bspec, OF h] k h
  show ?thesis by auto
qed


lemma set_collect_addresses:
  "set (collect_addresses acc body) = set acc \<union> set body"
  by (induction body arbitrary: acc) auto

lemma reply_when_not_ok:
  "ok (GetAddressesBalances L xs m0) = (reply (GetAddressesBalances L xs m0) = None)"
  by (simp add: GetAddressesBalances_def split: prod.splits option.splits)

lemma invalid_address_batch:
  assumes "a \<in> set vecAddr" and "GetIndexKey L a = None"
  shows "out_vecBalances (GetAddressesBalances L vecAddr m0)
           = out_vecBalances (GetAddressesBalances L
               (filter (\<lambda>x. GetIndexKey L x \<noteq> None) vecAddr) m0)
         \<and> out_mapUnconfirmed (GetAddressesBalances L vecAddr m0)
           = out_mapUnconfirmed (GetAddressesBalances L
               (filter (\<lambda>x. GetIndexKey L x \<noteq> None) vecAddr) m0)
         \<and> \<not> ok (GetAddressesBalances L vecAddr m0)
         \<and> ((\<exists>errs. reply (GetAddressesBalances L vecAddr m0) = Some (Errors errs)
                \<and> (InvalidSmartCashAddress, ''Invalid address: '' @ a) \<in> set errs
                \<and> map address (out_vecBalances (GetAddressesBalances L vecAddr m0))
                    = filter (processed L) vecAddr)
             \<or> (\<exists>e. reply (GetAddressesBalances L vecAddr m0) = Some e
                \<and> reply (GetAddressesBalances L
                     (filter (\<lambda>x. GetIndexKey L x \<noteq> None) vecAddr) m0) = Some e
                \<and> (e = Error BlockNotFound ''Can't read block from disk.''
                    \<or> e = Error TxNotFound ''Can't find Tx ID in block'')))"
proof -
  let ?st0 = "\<lparr>errors = [], vecBalances = [], mapUnconfirmed = m0\<rparr>"
  let ?good = "filter (\<lambda>x. GetIndexKey L x \<noteq> None) vecAddr"
  obtain r st' where l: "addresses_loop L vecAddr ?st0 = (r, st')"
    by (cases "addresses_loop L vecAddr ?st0")
  obtain r2 st2 where l2: "addresses_loop L ?good ?st0 = (r2, st2)"
    by (cases "addresses_loop L ?good ?st0")
  from addresses_loop_filter [of L vecAddr ?st0] l l2
  have rr: "r2 = r" and vv: "vecBalances st2 = vecBalances st'"
    and mm: "mapUnconfirmed st2 = mapUnconfirmed st'"
    by simp_all
  have v: "out_vecBalances (GetAddressesBalances L vecAddr m0)
           = out_vecBalances (GetAddressesBalances L ?good m0)"
    by (simp only: out_vecBalances_loop l l2 snd_conv vv)
  have m: "out_mapUnconfirmed (GetAddressesBalances L vecAddr m0)
           = out_mapUnconfirmed (GetAddressesBalances L ?good m0)"
    by (simp only: out_mapUnconfirmed_loop l l2 snd_conv mm)
  show ?thesis
  proof (cases r)
    case None
    from addresses_loop_invalid_recorded [OF assms l [unfolded None]]
    have e: "(InvalidSmartCashAddress, ''Invalid address: '' @ a) \<in> set (errors st')" .
    then have ne: "errors st' \<noteq> []" by auto
    have rep: "reply (GetAddressesBalances L vecAddr m0) = Some (Errors (errors st'))"
      using l None ne by (simp add: GetAddressesBalances_def)
    from addresses_loop_addresses [OF l [unfolded None]]
    have ad: "map address (out_vecBalances (GetAddressesBalances L vecAddr m0))
            = filter (processed L) vecAddr"
      by (simp add: out_vecBalances_loop l)
    have nok: "\<not> ok (GetAddressesBalances L vecAddr m0)"
      using rep by (simp add: reply_when_not_ok)
    from ad v m rep e nok show ?thesis by blast
  next
    case (Some e)
    from addresses_loop_fatal [OF l [unfolded Some]]
    have c: "e = Error BlockNotFound ''Can't read block from disk.''
             \<or> e = Error TxNotFound ''Can't find Tx ID in block''" .
    have r1: "reply (GetAddressesBalances L vecAddr m0) = Some e"
      using l Some by (simp add: GetAddressesBalances_def)
    have r2: "reply (GetAddressesBalances L ?good m0) = Some e"
      using l2 rr Some by (simp add: GetAddressesBalances_def)
    have nok: "\<not> ok (GetAddressesBalances L vecAddr m0)"
      using r1 by (simp add: reply_when_not_ok)
    from v m r1 r2 c nok show ?thesis by blast
  qed
qed



text \<open>
  Claim C6, amended. An address of the batch that does not resolve to an index key leaves
  the snapshots and the unconfirmed map that \<^verbatim>\<open>GetAddressesBalances\<close> computes as they are
  without it: the remaining addresses are still processed. Unless a time-lock evaluation
  fails (which it then does without the unresolved addresses too), the reply aggregates
  the errors, the error of the unresolved address among them, and the out-parameter holds
  one snapshot for every processed address of the batch, in order. But the call returns
  false, and the batch handler replies with the errors only.
\<close>

theorem invalid_address_fails_batch_with_all_errors:
  assumes "a \<in> set vecAddr" and "GetIndexKey L a = None"
  shows "out_vecBalances (GetAddressesBalances L vecAddr m0)
           = out_vecBalances (GetAddressesBalances L
               (filter (\<lambda>x. GetIndexKey L x \<noteq> None) vecAddr) m0)
         \<and> out_mapUnconfirmed (GetAddressesBalances L vecAddr m0)
           = out_mapUnconfirmed (GetAddressesBalances L
               (filter (\<lambda>x. GetIndexKey L x \<noteq> None) vecAddr) m0)
         \<and> \<not> ok (GetAddressesBalances L vecAddr m0)
         \<and> ((\<exists>errs. reply (GetAddressesBalances L vecAddr m0) = Some (Errors errs)
                \<and> (InvalidSmartCashAddress, ''Invalid address: '' @ a) \<in> set errs
                \<and> map address (out_vecBalances (GetAddressesBalances L vecAddr m0))
                    = filter (processed L) vecAddr)
             \<or> (\<exists>e. reply (GetAddressesBalances L vecAddr m0) = Some e
                \<and> reply (GetAddressesBalances L
                     (filter (\<lambda>x. GetIndexKey L x \<noteq> None) vecAddr) m0) = Some e
                \<and> (e = Error BlockNotFound ''Can't read block from disk.''
                    \<or> e = Error TxNotFound ''Can't find Tx ID in block'')))
         \<and> (\<exists>e. reply (GetAddressesBalances L (collect_addresses [] vecAddr) Map.empty) = Some e
                \<and> address_balances L vecAddr = Inl e)"
proof -
  have ne: "vecAddr \<noteq> []" using assms(1) by auto
  have "a \<in> set (collect_addresses [] vecAddr)"
    using assms(1) by (simp add: set_collect_addresses)
  from invalid_address_batch [OF this assms(2), of Map.empty]
  have nok: "\<not> ok (GetAddressesBalances L (collect_addresses [] vecAddr) Map.empty)" by blast
  then obtain e where
    e: "reply (GetAddressesBalances L (collect_addresses [] vecAddr) Map.empty) = Some e"
    by (auto simp: reply_when_not_ok)
  have "address_balances L vecAddr = Inl e"
    using ne nok e by (simp add: address_balances_def Let_def)
  with e have h: "\<exists>e. reply (GetAddressesBalances L (collect_addresses [] vecAddr) Map.empty) = Some e
                \<and> address_balances L vecAddr = Inl e"
    by blast
  from invalid_address_batch [OF assms, of m0] h show ?thesis by blast
qed

lemma ex_handler_bad_A:
  "address_balances ex_ledger [''bad'', ''A'']
     = Inl (Errors [(InvalidSmartCashAddress, ''Invalid address: bad'')])"
  by (simp add: address_balances_def ex_balances_bad_A Let_def)

lemma ex_handler_A:
  "address_balances ex_ledger [''A'']
     = Inr [\<lparr>entry_address = ''A'', entry_received = 1000, entry_sent = 0, entry_total = 1000,
             entry_locked = 0, entry_unlocked = 1000, entry_unconfirmed_delta = - 400,
             entry_unconfirmed_transactions = [8 \<mapsto> - 400]\<rparr>]"
  by (simp add: address_balances_def ex_balances_A Let_def)

theorem invalid_address_fails_batch_with_all_errors_witness:
  "''bad'' \<in> set [''bad'', ''A''] \<and> GetIndexKey ex_ledger ''bad'' = None
   \<and> filter (\<lambda>x. GetIndexKey ex_ledger x \<noteq> None) [''bad'', ''A''] = [''A'']
   \<and> out_vecBalances (GetAddressesBalances ex_ledger [''bad'', ''A''] Map.empty)
       = out_vecBalances (GetAddressesBalances ex_ledger [''A''] Map.empty)
   \<and> \<not> ok (GetAddressesBalances ex_ledger [''bad'', ''A''] Map.empty)
   \<and> reply (GetAddressesBalances ex_ledger [''bad'', ''A''] Map.empty)
       = Some (Errors [(InvalidSmartCashAddress, ''Invalid address: bad'')])
   \<and> out_vecBalances (GetAddressesBalances ex_ledger [''bad'', ''A''] Map.empty)
       = [\<lparr>address = ''A'', balance = 1000, locked = 0, received = 1000, unconfirmed = - 400\<rparr>]
   \<and> address_balances ex_ledger [''bad'', ''A'']
       = Inl (Errors [(InvalidSmartCashAddress, ''Invalid address: bad'')])"
proof -
  have h1: "''bad'' \<in> set [''bad'', ''A'']" by simp
  have h2: "GetIndexKey ex_ledger ''bad'' = None" by (simp add: ex_ledger_def)
  have f: "filter (\<lambda>x. GetIndexKey ex_ledger x \<noteq> None) [''bad'', ''A''] = [''A'']"
    by (simp add: ex_ledger_def)
  from invalid_address_fails_batch_with_all_errors [OF h1 h2, of Map.empty]
  have "out_vecBalances (GetAddressesBalances ex_ledger [''bad'', ''A''] Map.empty)
          = out_vecBalances (GetAddressesBalances ex_ledger [''A''] Map.empty)
        \<and> \<not> ok (GetAddressesBalances ex_ledger [''bad'', ''A''] Map.empty)"
    unfolding f by blast
  with h1 h2 f show ?thesis by (simp add: ex_balances_bad_A ex_handler_bad_A)
qed

text \<open>
  Claim C6 as stated fails: for the batch of an unresolved address and address \<open>A\<close> the
  call returns false and the handler's reply is the list of errors; the snapshot of \<open>A\<close>,
  which the handler delivers when \<open>A\<close> is asked for alone, is not part of it.
\<close>

theorem invalid_address_suppresses_snapshots:
  "address_balances ex_ledger [''bad'', ''A'']
     = Inl (Errors [(InvalidSmartCashAddress, ''Invalid address: bad'')])
   \<and> \<not> ok (GetAddressesBalances ex_ledger [''bad'', ''A''] Map.empty)
   \<and> reply (GetAddressesBalances ex_ledger [''bad'', ''A''] Map.empty)
       = Some (Errors [(InvalidSmartCashAddress, ''Invalid address: bad'')])
   \<and> address_balances ex_ledger [''A'']
       = Inr [\<lparr>entry_address = ''A'', entry_received = 1000, entry_sent = 0, entry_total = 1000,
               entry_locked = 0, entry_unlocked = 1000, entry_unconfirmed_delta = - 400,
               entry_unconfirmed_transactions = [8 \<mapsto> - 400]\<rparr>]"
  by (simp add: ex_handler_bad_A ex_handler_A ex_balances_bad_A)

text \<open>
  Claim C7, evaluated. Address \<open>L\<close> spent 1000 in transaction 9, whose output back to \<open>L\<close>
  of 900 is time-locked. The evaluator is asked about transaction 9 for the spending entry
  too, so the entry of -1000 is added to the locked total: it is -100, not 900.
\<close>

theorem locked_counts_spending_delta:
  "out_vecBalances (GetAddressesBalances ex_ledger [''L''] Map.empty)
     = [\<lparr>address = ''L'', balance = 900, locked = - 100, received = 1900, unconfirmed = 0\<rparr>]"
  by (simp add: GetAddressesBalances_def ex_ledger_def ex_IsTimeLocked_L7 ex_IsTimeLocked_L9)

section \<open>Properties of the transaction paginator\<close>

text \<open>
  Claim C8, evaluated. Address \<open>T\<close> has three index entries of two transactions. With page
  size 1, page 1 reports three transactions: the second entry of transaction 6 is looked up
  in the page only, where transaction 6 is not. Page 2 of the same query reports two.
\<close>

theorem totalNumTxs_counts_rows_outside_page:
  "GetAddressesTransactions ex_ledger ''T'' 1 1 True = Inr ([(5, 1, 5)], 3)
   \<and> GetAddressesTransactions ex_ledger ''T'' 2 1 True = Inr ([(6, 1, 7)], 2)
   \<and> GetAddressIndex ex_ledger 3 0
       = Some [(\<lparr>blockHeight = 1, txhash = 5, spending = False\<rparr>, 5),
               (\<lparr>blockHeight = 1, txhash = 6, spending = False\<rparr>, 3),
               (\<lparr>blockHeight = 1, txhash = 6, spending = False\<rparr>, 4)]
   \<and> card (set (map (\<lambda>e. txhash (fst e)) (the (GetAddressIndex ex_ledger 3 0)))) = 2"
  by (simp add: GetAddressesTransactions_def ex_ledger_def)

section \<open>Properties of the UTXO selection solver\<close>

lemma consistent_SetNull: "consistent SetNull"
  by (simp add: consistent_def SetNull_def)

lemma find_key_eq_None:
  "find (\<lambda>entry. key_eq (fst u) (fst entry)) us = None \<longleftrightarrow> outpoint u \<notin> set (map outpoint us)"
  by (induction us) (auto simp: key_eq_def outpoint_def)

lemma AddUtxo_new:
  "outpoint u \<notin> set (map outpoint (vecUtxos s)) \<Longrightarrow>
     AddUtxo s u = s\<lparr>amount := amount s + satoshis (snd u), vecUtxos := vecUtxos s @ [u],
                     fee := CalculateFee (int (length (vecUtxos s)) + 1)\<rparr>"
  using find_key_eq_None [of u "vecUtxos s"] by (simp add: AddUtxo_def Let_def add.commute)

lemma AddUtxo_old:
  "outpoint u \<in> set (map outpoint (vecUtxos s)) \<Longrightarrow> AddUtxo s u = s"
  using find_key_eq_None [of u "vecUtxos s"] by (auto simp: AddUtxo_def)

lemma consistent_AddUtxo: "consistent s \<Longrightarrow> consistent (AddUtxo s u)"
  by (cases "outpoint u \<in> set (map outpoint (vecUtxos s))")
     (simp_all add: AddUtxo_new AddUtxo_old consistent_def)

lemma consistent_offer: "consistent s \<Longrightarrow> consistent (offer S req h s u)"
  by (simp add: offer_def consistent_AddUtxo)

lemma consistent_set_change: "consistent s \<Longrightarrow> consistent (set_change req s)"
  by (simp add: set_change_def consistent_def)

lemma satisfying_set_change: "reached req s \<Longrightarrow> satisfying req (set_change req s)"
  by (simp add: set_change_def satisfying_def reached_def)

lemma walk_timeout:
  "GetTimeMicros S (nClock st) - t0 > nMatchTimeoutMicros \<Longrightarrow>
     walk S req t0 h (u # us) st = st\<lparr>nClock := nClock st + 1, fTimedOut := True\<rparr>"
  by (simp add: Let_def)

lemma walk_continue:
  "\<not> GetTimeMicros S (nClock st) - t0 > nMatchTimeoutMicros \<Longrightarrow>
   \<not> reached req (offer S req h (currentSolution st) u) \<Longrightarrow>
     walk S req t0 h (u # us) st
       = walk S req t0 h us
           (st\<lparr>nClock := nClock st + 1,
               currentSolution := offer S req h (currentSolution st) u\<rparr>)"
  by (simp add: Let_def)

lemma walk_reached:
  "\<not> GetTimeMicros S (nClock st) - t0 > nMatchTimeoutMicros \<Longrightarrow>
   reached req (offer S req h (currentSolution st) u) \<Longrightarrow>
     walk S req t0 h (u # us) st
       = (if IsNull (bestSolution st)
             \<or> (\<not> fRandom req
                \<and> length (vecUtxos (set_change req (offer S req h (currentSolution st) u)))
                   < length (vecUtxos (bestSolution st)))
          then st\<lparr>nClock := nClock st + 1,
                  bestSolution := set_change req (offer S req h (currentSolution st) u),
                  currentSolution := SetNull\<rparr>
          else st\<lparr>nClock := nClock st + 1,
                  currentSolution := set_change req (offer S req h (currentSolution st) u)\<rparr>)"
  by (simp add: Let_def)

declare walk.simps(2) [simp del]

lemma walk_nPageCurrent: "nPageCurrent (walk S req t0 h us st) = nPageCurrent st"
proof (induction us arbitrary: st)
  case Nil
  then show ?case by simp
next
  case (Cons u us)
  show ?case
  proof (cases "GetTimeMicros S (nClock st) - t0 > nMatchTimeoutMicros")
    case True
    then show ?thesis by (simp only: walk_timeout) simp
  next
    case False
    show ?thesis
    proof (cases "reached req (offer S req h (currentSolution st) u)")
      case True
      show ?thesis by (simp only: walk_reached [OF False True]) simp
    next
      case nr: False
      show ?thesis by (simp only: walk_continue [OF False nr] Cons.IH) simp
    qed
  qed
qed

lemma walk_inv: "loop_inv req st \<Longrightarrow> loop_inv req (walk S req t0 h us st)"
proof (induction us arbitrary: st)
  case Nil
  then show ?case by simp
next
  case (Cons u us)
  let ?cur = "offer S req h (currentSolution st) u"
  have c: "consistent ?cur" using Cons.prems by (simp add: loop_inv_def consistent_offer)
  show ?case
  proof (cases "GetTimeMicros S (nClock st) - t0 > nMatchTimeoutMicros")
    case True
    show ?thesis using Cons.prems by (simp only: walk_timeout [OF True]) (simp add: loop_inv_def)
  next
    case False
    show ?thesis
    proof (cases "reached req ?cur")
      case True
      show ?thesis using Cons.prems c True
        by (simp only: walk_reached [OF False True])
           (auto simp: loop_inv_def consistent_SetNull consistent_set_change satisfying_set_change)
    next
      case nr: False
      have i: "loop_inv req (st\<lparr>nClock := nClock st + 1, currentSolution := ?cur\<rparr>)"
        using Cons.prems c by (simp add: loop_inv_def)
      show ?thesis by (simp only: walk_continue [OF False nr] Cons.IH [OF i])
    qed
  qed
qed


lemma slice_round_inv:
  assumes "loop_inv req st" and "slice_round S req t0 h n p st = Inr (b, st')"
  shows "loop_inv req st' \<and> nPageCurrent st' = nPageCurrent st"
proof -
  have i1: "loop_inv req (st\<lparr>nClock := nClock st + 1\<rparr>)"
    using assms(1) by (simp add: loop_inv_def)
  have w: "\<And>us s. loop_inv req s \<Longrightarrow>
             loop_inv req ((walk S req t0 h us s)\<lparr>nClock := nClock (walk S req t0 h us s) + 1\<rparr>)
             \<and> loop_inv req ((walk S req t0 h us s)\<lparr>nClock := nClock (walk S req t0 h us s) + 1,
                                                    fTimedOut := True\<rparr>)"
    using walk_inv [of req _ S t0 h] by (simp add: loop_inv_def)
  from assms(2) show ?thesis
    using assms(1) i1 w [OF assms(1)] w [OF i1] walk_inv [OF assms(1), of S t0 h]
          walk_inv [OF i1, of S t0 h]
    by (auto simp: slice_round_def Let_def walk_nPageCurrent
             split: if_splits sum.splits)
qed

lemma select_loop_inv:
  "loop_inv req st \<Longrightarrow> select_loop n S req t0 h c p s0 st = Some (Inr st') \<Longrightarrow> loop_inv req st'"
proof (induction n arbitrary: st)
  case 0
  then show ?case by simp
next
  case (Suc n)
  from Suc.prems(2) obtain b st1 where
    r: "slice_round S req t0 h c p st = Inr (b, st1)"
    by (auto split: sum.splits)
  from slice_round_inv [OF Suc.prems(1) r] have i1: "loop_inv req st1" by simp
  then have i2: "loop_inv req (st1\<lparr>nPageCurrent := nPageCurrent st1 + 1\<rparr>)"
    by (simp add: loop_inv_def)
  from Suc.prems(2) r i1 i2 Suc.IH [OF i2] show ?case
    by (auto simp: Let_def split: if_splits)
qed

lemma select_loop_returns:
  "nPageStart < nPages \<Longrightarrow> nPageCurrent st = nPageStart + k \<Longrightarrow> k + n = nPages \<Longrightarrow> 0 < n \<Longrightarrow>
     select_loop n S req t0 h c nPages nPageStart st \<noteq> None"
proof (induction n arbitrary: st k)
  case 0
  then show ?case by simp
next
  case (Suc n)
  show ?case
  proof (cases "slice_round S req t0 h c nPages st")
    case (Inl e)
    then show ?thesis by simp
  next
    case (Inr bs)
    obtain b st1 where bs: "bs = (b, st1)" by (cases bs)
    have pc: "nPageCurrent st1 = nPageStart + k"
      using Inr bs Suc.prems(2)
      by (auto simp: slice_round_def Let_def walk_nPageCurrent split: if_splits sum.splits)
    show ?thesis
    proof (cases "b \<or> (nPageCurrent st1 + 1) mod nPages = nPageStart")
      case True
      then show ?thesis using Inr bs by (auto simp: Let_def)
    next
      case False
      have "n \<noteq> 0"
      proof
        assume "n = 0"
        with Suc.prems(3) have "nPageCurrent st1 + 1 = nPageStart + nPages" using pc by simp
        then have "(nPageCurrent st1 + 1) mod nPages = nPageStart"
          using Suc.prems(1) by (simp only: mod_add_self2 mod_less)
        with False show False by simp
      qed
      then have n0: "0 < n" by simp
      have "select_loop n S req t0 h c nPages nPageStart (st1\<lparr>nPageCurrent := nPageCurrent st1 + 1\<rparr>) \<noteq> None"
        by (rule Suc.IH [OF Suc.prems(1) _ _ n0, of _ "k + 1"]) (use pc Suc.prems(3) in simp_all)
      then show ?thesis using Inr bs False by (simp add: Let_def)
    qed
  qed
qed

lemma address_utxos_amount_returns: "address_utxos_amount S req \<noteq> None"
proof (cases "GetUTXOCount S (addrStr req)")
  case (Inl e)
  then show ?thesis by (simp add: address_utxos_amount_def)
next
  case (Inr c)
  show ?thesis
  proof (cases "c = 0")
    case True
    with Inr show ?thesis by (simp add: address_utxos_amount_def)
  next
    case False
    let ?p = "c div nUtxosSlice + (if c mod nUtxosSlice \<noteq> 0 then 1 else 0)"
    have p0: "0 < ?p" using False by (cases "c mod nUtxosSlice = 0") (auto simp: nUtxosSlice_def)
    have "select_loop ?p S req (GetTimeMicros S 0) (Height (chainActive S)) c ?p (GetRand S ?p)
            \<lparr>currentSolution = SetNull, bestSolution = SetNull, fTimedOut = False,
             nPageCurrent = GetRand S ?p, nClock = 2\<rparr> \<noteq> None"
      by (rule select_loop_returns [where k = 0]) (use p0 in \<open>simp_all add: GetRand_def\<close>)
    then show ?thesis using Inr False
      by (auto simp: address_utxos_amount_def Let_def split: sum.splits)
  qed
qed

text \<open>
  Claim C3. Every solution that the solver returns has an amount equal to the sum of the
  amounts of its outputs, which are pairwise distinct by transaction hash and output index;
  the amount reaches the requested amount plus the fee; the change is the amount minus the
  requested amount minus the fee, is never negative, and is 0 when the amount equals the
  requested amount plus the fee.
\<close>

theorem returned_solution_invariants:
  assumes "address_utxos_amount S req = Some (Inr sol)"
  shows "amount sol = sum_list (map (\<lambda>u. satoshis (snd u)) (vecUtxos sol))
     \<and> distinct (map outpoint (vecUtxos sol))
     \<and> amount sol \<ge> expectedAmount req + fee sol
     \<and> change sol = amount sol - expectedAmount req - fee sol
     \<and> change sol \<ge> 0
     \<and> (amount sol = expectedAmount req + fee sol \<longrightarrow> change sol = 0)"
proof -
  from assms obtain c where c: "GetUTXOCount S (addrStr req) = Inr c" and c0: "c \<noteq> 0"
    by (auto simp: address_utxos_amount_def Let_def split: sum.splits if_splits)
  let ?p = "c div nUtxosSlice + (if c mod nUtxosSlice \<noteq> 0 then 1 else 0)"
  let ?st0 = "\<lparr>currentSolution = SetNull, bestSolution = SetNull, fTimedOut = False,
             nPageCurrent = GetRand S ?p, nClock = 2\<rparr>"
  from assms c c0 obtain st where
    l: "select_loop ?p S req (GetTimeMicros S 0) (Height (chainActive S)) c ?p (GetRand S ?p) ?st0
          = Some (Inr st)"
    and s: "sol = bestSolution st" and nn: "\<not> IsNull (bestSolution st)"
    by (auto simp: address_utxos_amount_def Let_def split: sum.splits if_splits option.splits)
  have "loop_inv req ?st0" by (simp add: loop_inv_def consistent_SetNull IsNull_def) (simp add: SetNull_def)
  from select_loop_inv [OF this l] nn s
  have "consistent sol" and "satisfying req sol" by (simp_all add: loop_inv_def)
  then show ?thesis by (auto simp: consistent_def satisfying_def)
qed

lemma CalculateFee_1: "CalculateFee 1 = 100000" by (simp add: CalculateFee_div)
lemma CalculateFee_2: "CalculateFee 2 = 100000" by (simp add: CalculateFee_div)
lemma CalculateFee_2001: "CalculateFee 2001 = 28900000" by (simp add: CalculateFee_div)

lemma ex_scenario:
  "address_utxos_amount
      (ex_solver [mk_utxo 2 100000000, mk_utxo 3 500000000, mk_utxo 4 300000000]) ex_request
     = Some (Inr \<lparr>amount = 800000000, fee = 100000, change = 199900000,
                  vecUtxos = [mk_utxo 3 500000000, mk_utxo 4 300000000]\<rparr>)"
  by (simp add: address_utxos_amount_def GetUTXOCount_def GetUTXOs_def ex_solver_def
        ex_request_def nUtxosSlice_def GetRand_def slice_round_def mk_utxo_def
        ex_IsTimeLocked_A sort_HTL_def offer_def usable_def AddUtxo_def key_eq_def
        reached_def set_change_def SetNull_def IsNull_def nMatchTimeoutMicros_def
        CalculateFee_1 CalculateFee_2 Let_def walk.simps)

theorem returned_solution_invariants_witness:
  "address_utxos_amount
      (ex_solver [mk_utxo 2 100000000, mk_utxo 3 500000000, mk_utxo 4 300000000]) ex_request
     = Some (Inr \<lparr>amount = 800000000, fee = 100000, change = 199900000,
                  vecUtxos = [mk_utxo 3 500000000, mk_utxo 4 300000000]\<rparr>)
   \<and> (800000000::int) = sum_list (map (\<lambda>u. satoshis (snd u))
                                    [mk_utxo 3 500000000, mk_utxo 4 300000000])
   \<and> distinct (map outpoint [mk_utxo 3 500000000, mk_utxo 4 300000000])
   \<and> (800000000::int) \<ge> expectedAmount ex_request + 100000
   \<and> (199900000::int) = 800000000 - expectedAmount ex_request - 100000"
  using returned_solution_invariants [OF ex_scenario] ex_scenario by simp

lemma filter_locked_all_unlocked:
  "(\<forall>u \<in> set us. IsTimeLocked ch (nBlockHeight (fst u)) (utxo_txhash (fst u)) a = Inr False) \<Longrightarrow>
     filter_locked ch a us = Inr us"
  by (induction us) simp_all

lemma sort_HTL_same_amount:
  "(\<forall>u \<in> set us. satoshis (snd u) = c) \<Longrightarrow> sort_HTL us = us"
proof -
  assume a: "\<forall>u \<in> set us. satoshis (snd u) = c"
  then have "map (\<lambda>u. - satoshis (snd u)) us = replicate (length us) (- c)"
    by (induction us) simp_all
  then have "sorted (map (\<lambda>u. - satoshis (snd u)) us)" by (simp add: sorted_replicate)
  then show ?thesis unfolding sort_HTL_def by (rule sort_key_id_if_sorted)
qed

lemma offer_amount:
  "0 \<le> satoshis (snd u) \<Longrightarrow> amount (offer S req h cur u) \<le> amount cur + satoshis (snd u)"
  by (cases "outpoint u \<in> set (map outpoint (vecUtxos cur))")
     (simp_all add: offer_def AddUtxo_new AddUtxo_old)

lemma offer_fee: "0 \<le> fee cur \<Longrightarrow> 0 \<le> fee (offer S req h cur u)"
  using CalculateFee_floor [of "int (length (vecUtxos cur)) + 1"]
  by (cases "outpoint u \<in> set (map outpoint (vecUtxos cur))")
     (simp_all add: offer_def AddUtxo_new AddUtxo_old)

lemma walk_insufficient:
  assumes "\<forall>k. \<not> GetTimeMicros S k - t0 > nMatchTimeoutMicros"
  shows "\<forall>u \<in> set us. 0 \<le> satoshis (snd u) \<Longrightarrow> 0 \<le> fee (currentSolution st) \<Longrightarrow>
     amount (currentSolution st) + sum_list (map (\<lambda>u. satoshis (snd u)) us) < expectedAmount req \<Longrightarrow>
     walk S req t0 h us st
       = st\<lparr>nClock := nClock st + length us,
             currentSolution := foldl (offer S req h) (currentSolution st) us\<rparr>"
proof (induction us arbitrary: st)
  case Nil
  then show ?case by simp
next
  case (Cons u us)
  let ?cur = "offer S req h (currentSolution st) u"
  let ?st = "st\<lparr>nClock := nClock st + 1, currentSolution := ?cur\<rparr>"
  have nt: "\<not> GetTimeMicros S (nClock st) - t0 > nMatchTimeoutMicros" using assms by simp
  have u0: "0 \<le> satoshis (snd u)" using Cons.prems(1) by simp
  have s0: "0 \<le> sum_list (map (\<lambda>u. satoshis (snd u)) us)"
    by (rule sum_list_nonneg) (use Cons.prems(1) in auto)
  have am: "amount ?cur \<le> amount (currentSolution st) + satoshis (snd u)"
    by (rule offer_amount [OF u0])
  have fe: "0 \<le> fee ?cur" by (rule offer_fee [OF Cons.prems(2)])
  have nr: "\<not> reached req ?cur"
    using am fe s0 Cons.prems(3) by (simp add: reached_def)
  have "walk S req t0 h us ?st
       = ?st\<lparr>nClock := nClock ?st + length us,
             currentSolution := foldl (offer S req h) (currentSolution ?st) us\<rparr>"
    by (rule Cons.IH) (use Cons.prems am fe in simp_all)
  then show ?case by (simp only: walk_continue [OF nt nr]) simp
qed

lemma foldl_offer_distinct:
  "\<forall>u \<in> set us. usable S req h u \<Longrightarrow> distinct (map outpoint (vecUtxos cur @ us)) \<Longrightarrow>
     foldl (offer S req h) cur us
       = cur\<lparr>amount := amount cur + sum_list (map (\<lambda>u. satoshis (snd u)) us),
              fee := (if us = [] then fee cur
                      else CalculateFee (int (length (vecUtxos cur) + length us))),
              vecUtxos := vecUtxos cur @ us\<rparr>"
proof (induction us arbitrary: cur)
  case Nil
  then show ?case by simp
next
  case (Cons u us)
  have n: "outpoint u \<notin> set (map outpoint (vecUtxos cur))" using Cons.prems(2) by auto
  have o: "offer S req h cur u
             = cur\<lparr>amount := amount cur + satoshis (snd u), vecUtxos := vecUtxos cur @ [u],
                     fee := CalculateFee (int (length (vecUtxos cur)) + 1)\<rparr>"
    using Cons.prems(1) by (simp add: offer_def AddUtxo_new [OF n])
  have "foldl (offer S req h) (offer S req h cur u) us
       = (offer S req h cur u)\<lparr>amount := amount (offer S req h cur u) + sum_list (map (\<lambda>u. satoshis (snd u)) us),
              fee := (if us = [] then fee (offer S req h cur u)
                      else CalculateFee (int (length (vecUtxos (offer S req h cur u)) + length us))),
              vecUtxos := vecUtxos (offer S req h cur u) @ us\<rparr>"
    by (rule Cons.IH) (use Cons.prems in \<open>simp_all add: o\<close>)
  then show ?case by (simp add: o add.commute add.left_commute)
qed

lemma length_small_outputs: "length small_outputs = 2000"
  by (simp add: small_outputs_def)

lemma small_outputs_fields:
  "u \<in> set small_outputs \<Longrightarrow>
     nBlockHeight (fst u) = 1 \<and> utxo_txhash (fst u) = 7 \<and> satoshis (snd u) = 1
     \<and> utxo_index (fst u) < 2000"
  by (auto simp: small_outputs_def mk_utxo_def)

lemma sum_list_all_one:
  "(\<forall>u \<in> set xs. f u = (1::int)) \<Longrightarrow> sum_list (map f xs) = int (length xs)"
  by (induction xs) simp_all

lemma sum_small_outputs: "sum_list (map (\<lambda>u. satoshis (snd u)) small_outputs) = 2000"
  using sum_list_all_one [of small_outputs "\<lambda>u. satoshis (snd u)"]
  by (simp add: small_outputs_fields length_small_outputs)

lemma distinct_small_outputs: "distinct (map outpoint small_outputs)"
proof -
  have "map outpoint small_outputs = map (\<lambda>i. (7, i)) [0..<2000]"
    by (simp add: small_outputs_def mk_utxo_def outpoint_def)
  moreover have "distinct (map (\<lambda>i. (7::nat, i)) [0..<2000])"
    by (simp add: distinct_map inj_on_def)
  ultimately show ?thesis by simp
qed

lemma outpoint_fresh: "outpoint (mk_utxo 2000 a) \<notin> set (map outpoint small_outputs)"
  by (auto simp: small_outputs_def mk_utxo_def outpoint_def)

lemma usable_ex: "usable (ex_solver us) ex_request h u"
  by (simp add: usable_def ex_solver_def ex_request_def)

lemma no_timeout_ex: "\<forall>k. \<not> GetTimeMicros (ex_solver us) k - 0 > nMatchTimeoutMicros"
  by (simp add: ex_solver_def nMatchTimeoutMicros_def)

lemma GetUTXOs_ex: "GetUTXOs (ex_solver us) ''A'' offset limit = Inr (take limit (drop offset us))"
  by (simp add: GetUTXOs_def ex_solver_def)

lemma chainActive_ex: "chainActive (ex_solver us) = ex_chain"
  by (simp add: ex_solver_def)

lemma GetTimeMicros_ex: "GetTimeMicros (ex_solver us) k = 0"
  by (simp add: ex_solver_def)

lemma ex_request_fields:
  "addrStr ex_request = ''A''" "expectedAmount ex_request = 600000000"
  "fRandom ex_request = False" "fInstantPay ex_request = False"
  by (simp_all add: ex_request_def)

lemma walk_small_outputs:
  "walk (ex_solver us) ex_request 0 h small_outputs
      \<lparr>currentSolution = SetNull, bestSolution = SetNull, fTimedOut = False,
       nPageCurrent = 0, nClock = 3\<rparr>
     = \<lparr>currentSolution = \<lparr>amount = 2000, fee = CalculateFee 2000, change = 0,
                           vecUtxos = small_outputs\<rparr>,
        bestSolution = SetNull, fTimedOut = False, nPageCurrent = 0, nClock = 2003\<rparr>"
proof -
  let ?st = "\<lparr>currentSolution = SetNull, bestSolution = SetNull, fTimedOut = False,
       nPageCurrent = 0, nClock = 3\<rparr>"
  have nn: "\<forall>u \<in> set small_outputs. 0 \<le> satoshis (snd u)"
    using small_outputs_fields by simp
  have w: "walk (ex_solver us) ex_request 0 h small_outputs ?st
       = ?st\<lparr>nClock := nClock ?st + length small_outputs,
             currentSolution := foldl (offer (ex_solver us) ex_request h) (currentSolution ?st) small_outputs\<rparr>"
    by (rule walk_insufficient [OF no_timeout_ex nn])
       (simp_all add: SetNull_def sum_small_outputs ex_request_fields)
  have f: "foldl (offer (ex_solver us) ex_request h) SetNull small_outputs
       = SetNull\<lparr>amount := amount SetNull + sum_list (map (\<lambda>u. satoshis (snd u)) small_outputs),
              fee := (if small_outputs = [] then fee SetNull
                      else CalculateFee (int (length (vecUtxos SetNull) + length small_outputs))),
              vecUtxos := vecUtxos SetNull @ small_outputs\<rparr>"
    by (rule foldl_offer_distinct) (simp_all add: usable_ex SetNull_def distinct_small_outputs)
  have ne: "small_outputs \<noteq> []" using length_small_outputs by auto
  show ?thesis unfolding w
    by (simp add: f sum_small_outputs length_small_outputs ne) (simp add: SetNull_def)
qed

lemma filter_locked_small_outputs: "filter_locked ex_chain ''A'' small_outputs = Inr small_outputs"
  by (rule filter_locked_all_unlocked) (simp add: small_outputs_fields ex_IsTimeLocked_A)

lemma sort_HTL_small_outputs: "sort_HTL small_outputs = small_outputs"
  by (rule sort_HTL_same_amount [where c = 1]) (simp add: small_outputs_fields)

lemma first_round:
  "slice_round (ex_solver (small_outputs @ [x])) ex_request 0 h 2001 2
      \<lparr>currentSolution = SetNull, bestSolution = SetNull, fTimedOut = False,
       nPageCurrent = 0, nClock = 2\<rparr>
     = Inr (False,
        \<lparr>currentSolution = \<lparr>amount = 2000, fee = CalculateFee 2000, change = 0,
                           vecUtxos = small_outputs\<rparr>,
        bestSolution = SetNull, fTimedOut = False, nPageCurrent = 0, nClock = 2004\<rparr>)"
  by (simp add: slice_round_def nUtxosSlice_def ex_request_fields GetTimeMicros_ex
        nMatchTimeoutMicros_def GetUTXOs_ex length_small_outputs chainActive_ex
        filter_locked_small_outputs sort_HTL_small_outputs walk_small_outputs)


lemma CalculateFee_2000: "CalculateFee 2000 = 28900000" by (simp add: CalculateFee_div)

lemma offer_after_small_outputs:
  "offer (ex_solver us) ex_request h
      \<lparr>amount = 2000, fee = f, change = 0, vecUtxos = small_outputs\<rparr> (mk_utxo 2000 a)
     = \<lparr>amount = 2000 + a, fee = 28900000, change = 0,
        vecUtxos = small_outputs @ [mk_utxo 2000 a]\<rparr>"
  using AddUtxo_new [of "mk_utxo 2000 a" "\<lparr>amount = 2000, fee = f, change = 0, vecUtxos = small_outputs\<rparr>"]
        outpoint_fresh [of a]
  by (simp add: offer_def usable_ex length_small_outputs CalculateFee_2001) (simp add: mk_utxo_def)

lemma ex_IsTimeLocked_mk_utxo:
  "IsTimeLocked ex_chain (nBlockHeight (fst (mk_utxo i a))) (utxo_txhash (fst (mk_utxo i a))) ''A''
     = Inr False"
  by (simp add: mk_utxo_def ex_IsTimeLocked_A)

lemma second_round_large:
  "slice_round (ex_solver (small_outputs @ [mk_utxo 2000 1000000000])) ex_request 0 h 2001 2
      \<lparr>currentSolution = \<lparr>amount = 2000, fee = 28900000, change = 0,
                           vecUtxos = small_outputs\<rparr>,
        bestSolution = SetNull, fTimedOut = False, nPageCurrent = Suc 0, nClock = 2004\<rparr>
     = Inr (False,
         \<lparr>currentSolution = SetNull,
          bestSolution = \<lparr>amount = 1000002000, fee = 28900000, change = 371102000,
                           vecUtxos = small_outputs @ [mk_utxo 2000 1000000000]\<rparr>,
          fTimedOut = False, nPageCurrent = Suc 0, nClock = 2007\<rparr>)"
  by (simp add: slice_round_def nUtxosSlice_def ex_request_fields GetTimeMicros_ex
        nMatchTimeoutMicros_def GetUTXOs_ex length_small_outputs chainActive_ex
        ex_IsTimeLocked_mk_utxo sort_HTL_def Let_def offer_after_small_outputs reached_def
        set_change_def IsNull_def SetNull_def walk.simps)

lemma second_round_small:
  "slice_round (ex_solver (small_outputs @ [mk_utxo 2000 1])) ex_request 0 h 2001 2
      \<lparr>currentSolution = \<lparr>amount = 2000, fee = 28900000, change = 0,
                           vecUtxos = small_outputs\<rparr>,
        bestSolution = SetNull, fTimedOut = False, nPageCurrent = Suc 0, nClock = 2004\<rparr>
     = Inr (False,
         \<lparr>currentSolution = \<lparr>amount = 2001, fee = 28900000, change = 0,
                           vecUtxos = small_outputs @ [mk_utxo 2000 1]\<rparr>,
          bestSolution = SetNull,
          fTimedOut = False, nPageCurrent = Suc 0, nClock = 2007\<rparr>)"
  by (simp add: slice_round_def nUtxosSlice_def ex_request_fields GetTimeMicros_ex
        nMatchTimeoutMicros_def GetUTXOs_ex length_small_outputs chainActive_ex
        ex_IsTimeLocked_mk_utxo sort_HTL_def Let_def offer_after_small_outputs reached_def
        set_change_def IsNull_def SetNull_def walk.simps)

lemma select_loop_2: "select_loop 2 = select_loop (Suc (Suc 0))"
  by (simp add: numeral_2_eq_2)

lemma GetUTXOCount_ex: "GetUTXOCount (ex_solver us) ''A'' = Inr (length us)"
  by (simp add: GetUTXOCount_def ex_solver_def)

lemma address_utxos_amount_unfold:
  assumes "GetUTXOCount S (addrStr req) = Inr c" and "c \<noteq> 0"
    and "c div nUtxosSlice + (if c mod nUtxosSlice \<noteq> 0 then 1 else 0) = p"
    and "GetRand S p = s"
    and "select_loop p S req (GetTimeMicros S 0) (Height (chainActive S)) c p s
           \<lparr>currentSolution = SetNull, bestSolution = SetNull, fTimedOut = False,
            nPageCurrent = s, nClock = 2\<rparr> = Some (Inr st)"
  shows "address_utxos_amount S req
     = (if (nPageCurrent st + 1) mod p = s \<and> IsNull (bestSolution st) \<and> \<not> fTimedOut st
        then Some (Inl (Error BalanceInsufficient ''Requested amount exceeds balance''))
        else if IsNull (bestSolution st)
        then Some (Inl (Error TimedOut ''No solution found''))
        else Some (Inr (bestSolution st)))"
  using assms by (simp add: address_utxos_amount_def Let_def)

lemma ex_pages: "(2001::nat) div nUtxosSlice + (if 2001 mod nUtxosSlice \<noteq> 0 then 1 else 0) = 2"
  by (simp add: nUtxosSlice_def)

lemma ex_large_loop:
  "select_loop 2 (ex_solver (small_outputs @ [mk_utxo 2000 1000000000])) ex_request 0 h 2001 2 0
      \<lparr>currentSolution = SetNull, bestSolution = SetNull, fTimedOut = False,
       nPageCurrent = 0, nClock = 2\<rparr>
     = Some (Inr \<lparr>currentSolution = SetNull,
          bestSolution = \<lparr>amount = 1000002000, fee = 28900000, change = 371102000,
                           vecUtxos = small_outputs @ [mk_utxo 2000 1000000000]\<rparr>,
          fTimedOut = False, nPageCurrent = 2, nClock = 2007\<rparr>)"
  by (simp add: select_loop_2 first_round CalculateFee_2000 second_round_large)

lemma ex_small_loop:
  "select_loop 2 (ex_solver (small_outputs @ [mk_utxo 2000 1])) ex_request 0 h 2001 2 0
      \<lparr>currentSolution = SetNull, bestSolution = SetNull, fTimedOut = False,
       nPageCurrent = 0, nClock = 2\<rparr>
     = Some (Inr \<lparr>currentSolution = \<lparr>amount = 2001, fee = 28900000, change = 0,
                           vecUtxos = small_outputs @ [mk_utxo 2000 1]\<rparr>,
          bestSolution = SetNull,
          fTimedOut = False, nPageCurrent = 2, nClock = 2007\<rparr>)"
  by (simp add: select_loop_2 first_round CalculateFee_2000 second_round_small)

lemma ex_large_address:
  "address_utxos_amount (ex_solver (small_outputs @ [mk_utxo 2000 1000000000])) ex_request
     = Some (Inr \<lparr>amount = 1000002000, fee = 28900000, change = 371102000,
                  vecUtxos = small_outputs @ [mk_utxo 2000 1000000000]\<rparr>)"
proof -
  let ?S = "ex_solver (small_outputs @ [mk_utxo 2000 1000000000])"
  have c: "GetUTXOCount ?S (addrStr ex_request) = Inr 2001"
    by (simp add: GetUTXOCount_ex ex_request_fields length_small_outputs)
  have r: "GetRand ?S 2 = 0" by (simp add: GetRand_def ex_solver_def)
  have l: "select_loop 2 ?S ex_request (GetTimeMicros ?S 0) (Height (chainActive ?S)) 2001 2 0
      \<lparr>currentSolution = SetNull, bestSolution = SetNull, fTimedOut = False,
       nPageCurrent = 0, nClock = 2\<rparr>
     = Some (Inr \<lparr>currentSolution = SetNull,
          bestSolution = \<lparr>amount = 1000002000, fee = 28900000, change = 371102000,
                           vecUtxos = small_outputs @ [mk_utxo 2000 1000000000]\<rparr>,
          fTimedOut = False, nPageCurrent = 2, nClock = 2007\<rparr>)"
    by (simp only: GetTimeMicros_ex ex_large_loop)
  show ?thesis
    by (simp only: address_utxos_amount_unfold [OF c _ ex_pages r l]) (simp add: IsNull_def)
qed

lemma ex_small_address:
  "address_utxos_amount (ex_solver (small_outputs @ [mk_utxo 2000 1])) ex_request
     = Some (Inl (Error TimedOut ''No solution found''))"
proof -
  let ?S = "ex_solver (small_outputs @ [mk_utxo 2000 1])"
  have c: "GetUTXOCount ?S (addrStr ex_request) = Inr 2001"
    by (simp add: GetUTXOCount_ex ex_request_fields length_small_outputs)
  have r: "GetRand ?S 2 = 0" by (simp add: GetRand_def ex_solver_def)
  have l: "select_loop 2 ?S ex_request (GetTimeMicros ?S 0) (Height (chainActive ?S)) 2001 2 0
      \<lparr>currentSolution = SetNull, bestSolution = SetNull, fTimedOut = False,
       nPageCurrent = 0, nClock = 2\<rparr>
     = Some (Inr \<lparr>currentSolution = \<lparr>amount = 2001, fee = 28900000, change = 0,
                           vecUtxos = small_outputs @ [mk_utxo 2000 1]\<rparr>,
          bestSolution = SetNull,
          fTimedOut = False, nPageCurrent = 2, nClock = 2007\<rparr>)"
    by (simp only: GetTimeMicros_ex ex_small_loop)
  show ?thesis
    by (simp only: address_utxos_amount_unfold [OF c _ ex_pages r l])
       (simp add: IsNull_def SetNull_def)
qed

lemma filter_locked_eq:
  "filter_locked ch a us = Inr kept \<Longrightarrow>
     kept = filter (\<lambda>u. IsTimeLocked ch (nBlockHeight (fst u)) (utxo_txhash (fst u)) a = Inr False) us"
proof (induction us arbitrary: kept)
  case Nil
  then show ?case by simp
next
  case (Cons u us)
  from Cons.prems obtain l k where
    l: "IsTimeLocked ch (nBlockHeight (fst u)) (utxo_txhash (fst u)) a = Inr l"
    and k: "filter_locked ch a us = Inr k" and e: "kept = (if l then k else u # k)"
    by (auto split: sum.splits)
  from Cons.IH [OF k] l e show ?case by auto
qed

lemma foldl_offer_filter:
  "foldl (offer S req h) cur us = foldl (offer S req h) cur (filter (usable S req h) us)"
  by (induction us arbitrary: cur) (simp_all add: offer_def)

lemma sum_mset_le_take:
  fixes ys :: "int list"
  shows "sorted (map uminus ys) \<Longrightarrow> M \<subseteq># mset ys \<Longrightarrow> sum_mset M \<le> sum_list (take (size M) ys)"
proof (induction ys arbitrary: M)
  case Nil
  then show ?case by simp
next
  case (Cons y ys)
  show ?case
  proof (cases "M = {#}")
    case True
    then show ?thesis by simp
  next
    case False
    have le: "\<And>z. z \<in> set ys \<Longrightarrow> z \<le> y" using Cons.prems(1) by auto
    have srt: "sorted (map uminus ys)" using Cons.prems(1) by simp
    obtain x where x: "x \<in># M" and sub: "M - {#x#} \<subseteq># mset ys" and xy: "x \<le> y"
    proof (cases "y \<in># M")
      case True
      have "M - {#y#} \<subseteq># mset ys"
        using Cons.prems(2) by (simp add: subset_eq_diff_conv)
      with True that show ?thesis by blast
    next
      case ny: False
      from False obtain x where x: "x \<in># M" by (auto simp: multiset_nonemptyE)
      have "M \<subseteq># mset ys"
        unfolding subseteq_mset_def
      proof
        fix a
        show "count M a \<le> count (mset ys) a"
        proof (cases "a = y")
          case True
          then have "count M a = 0" using ny by (simp add: not_in_iff)
          then show ?thesis by simp
        next
          case False
          then show ?thesis
            using Cons.prems(2) [unfolded subseteq_mset_def, rule_format, of a] by simp
        qed
      qed
      moreover have "M - {#x#} \<subseteq># M" by (rule diff_subset_eq_self)
      ultimately have s: "M - {#x#} \<subseteq># mset ys" by (rule subset_mset.order_trans [rotated])
      from mset_subset_eqD [OF Cons.prems(2) x] have "x \<in> set (y # ys)" by simp
      with le have "x \<le> y" by auto
      with x s that show ?thesis by blast
    qed
    have M: "M = add_mset x (M - {#x#})" using x by simp
    have sz: "size M = Suc (size (M - {#x#}))" by (subst M) (simp only: size_add_mset)
    have "sum_mset (M - {#x#}) \<le> sum_list (take (size (M - {#x#})) ys)"
      by (rule Cons.IH [OF srt sub])
    moreover have "sum_mset M = x + sum_mset (M - {#x#})"
      by (subst M) simp
    ultimately show ?thesis using xy by (simp add: sz)
  qed
qed

lemma filter_take_prefix:
  "filter P (take n xs) = take (length (filter P (take n xs))) (filter P xs)"
proof (induction xs arbitrary: n)
  case Nil
  then show ?case by simp
next
  case (Cons x xs)
  show ?case
  proof (cases n)
    case 0
    then show ?thesis by simp
  next
    case (Suc k)
    with Cons.IH [of k] show ?thesis by simp
  qed
qed

lemma filter_take_count:
  "m \<le> length (filter P (take n xs)) \<Longrightarrow> \<exists>n' \<le> n. length (filter P (take n' xs)) = m"
proof (induction n)
  case 0
  then show ?case by simp
next
  case (Suc n)
  show ?case
  proof (cases "m \<le> length (filter P (take n xs))")
    case True
    from Suc.IH [OF this] obtain n' where "n' \<le> n" and "length (filter P (take n' xs)) = m"
      by blast
    then show ?thesis by (intro exI [of _ n']) simp
  next
    case False
    have "length (filter P (take (Suc n) xs)) \<le> Suc (length (filter P (take n xs)))"
    proof (cases "n < length xs")
      case True
      then show ?thesis by (simp add: take_Suc_conv_app_nth)
    next
      case False
      then show ?thesis by simp
    qed
    with False Suc.prems have "length (filter P (take (Suc n) xs)) = m" by simp
    then show ?thesis by blast
  qed
qed

lemma walk_first_hit:
  "IsNull (bestSolution st) \<Longrightarrow> \<not> IsNull (bestSolution (walk S req t0 h us st)) \<Longrightarrow>
     \<exists>n. 0 < n \<and> n \<le> length us
       \<and> bestSolution (walk S req t0 h us st)
           = set_change req (foldl (offer S req h) (currentSolution st) (take n us))
       \<and> (\<forall>m. 0 < m \<and> m < n \<longrightarrow>
             \<not> reached req (foldl (offer S req h) (currentSolution st) (take m us)))"
proof (induction us arbitrary: st)
  case Nil
  then show ?case by simp
next
  case (Cons u us)
  let ?cur = "offer S req h (currentSolution st) u"
  show ?case
  proof (cases "GetTimeMicros S (nClock st) - t0 > nMatchTimeoutMicros")
    case True
    with Cons.prems show ?thesis by (simp add: walk_timeout)
  next
    case False
    show ?thesis
    proof (cases "reached req ?cur")
      case True
      have "bestSolution (walk S req t0 h (u # us) st) = set_change req ?cur"
        using Cons.prems(1) by (simp only: walk_reached [OF False True]) simp
      then show ?thesis by (intro exI [of _ 1]) simp
    next
      case nr: False
      let ?st = "st\<lparr>nClock := nClock st + 1, currentSolution := ?cur\<rparr>"
      have w: "walk S req t0 h (u # us) st = walk S req t0 h us ?st"
        by (rule walk_continue [OF False nr])
      have n1: "IsNull (bestSolution ?st)" using Cons.prems(1) by simp
      have n2: "\<not> IsNull (bestSolution (walk S req t0 h us ?st))"
        using Cons.prems(2) unfolding w .
      from Cons.IH [OF n1 n2] obtain n where
        n: "0 < n" "n \<le> length us"
        and b: "bestSolution (walk S req t0 h us ?st)
                  = set_change req (foldl (offer S req h) ?cur (take n us))"
        and f: "\<forall>m. 0 < m \<and> m < n \<longrightarrow> \<not> reached req (foldl (offer S req h) ?cur (take m us))"
        by auto
      have f': "\<forall>m. 0 < m \<and> m < Suc n \<longrightarrow>
                  \<not> reached req (foldl (offer S req h) (currentSolution st) (take m (u # us)))"
      proof (intro allI impI)
        fix m
        assume m: "0 < m \<and> m < Suc n"
        then obtain k where k: "m = Suc k" by (cases m) auto
        show "\<not> reached req (foldl (offer S req h) (currentSolution st) (take m (u # us)))"
        proof (cases "k = 0")
          case True
          with nr k show ?thesis by simp
        next
          case False
          with f m k show ?thesis by simp
        qed
      qed
      show ?thesis
        unfolding w using n b f' by (intro exI [of _ "Suc n"]) simp
    qed
  qed
qed

lemma foldl_offer_SetNull:
  assumes "distinct (map outpoint us)"
  shows "foldl (offer S req h) SetNull us
     = \<lparr>amount = sum_list (map (\<lambda>u. satoshis (snd u)) (filter (usable S req h) us)),
        fee = (if filter (usable S req h) us = [] then 0
               else CalculateFee (int (length (filter (usable S req h) us)))),
        change = 0,
        vecUtxos = filter (usable S req h) us\<rparr>"
proof -
  have d: "distinct (map outpoint (vecUtxos SetNull @ filter (usable S req h) us))"
    using assms by (simp add: SetNull_def distinct_map_filter)
  have "foldl (offer S req h) SetNull (filter (usable S req h) us)
     = SetNull\<lparr>amount := amount SetNull
                   + sum_list (map (\<lambda>u. satoshis (snd u)) (filter (usable S req h) us)),
              fee := (if filter (usable S req h) us = [] then fee SetNull
                      else CalculateFee (int (length (vecUtxos SetNull)
                                              + length (filter (usable S req h) us)))),
              vecUtxos := vecUtxos SetNull @ filter (usable S req h) us\<rparr>"
    by (rule foldl_offer_distinct [OF _ d]) simp
  then show ?thesis
    by (subst foldl_offer_filter) (simp add: SetNull_def)
qed

lemma sort_HTL_sorted: "sorted (map (\<lambda>u. - satoshis (snd u)) (sort_HTL us))"
  by (simp add: sort_HTL_def)

lemma sort_HTL_mset: "mset (sort_HTL us) = mset us"
  by (simp add: sort_HTL_def)

lemma sort_HTL_distinct: "distinct (map outpoint us) \<Longrightarrow> distinct (map outpoint (sort_HTL us))"
proof -
  assume d: "distinct (map outpoint us)"
  have "mset (map outpoint (sort_HTL us)) = mset (map outpoint us)"
    by (simp add: sort_HTL_mset)
  from mset_eq_imp_distinct_iff [OF this] d show ?thesis by simp
qed

lemma address_utxos_amount_Inr:
  assumes "address_utxos_amount S req = Some (Inr sol)"
    and "GetUTXOCount S (addrStr req) = Inr c"
    and "c div nUtxosSlice + (if c mod nUtxosSlice \<noteq> 0 then 1 else 0) = p"
    and "GetRand S p = s"
  obtains st where
    "select_loop p S req (GetTimeMicros S 0) (Height (chainActive S)) c p s
       \<lparr>currentSolution = SetNull, bestSolution = SetNull, fTimedOut = False,
        nPageCurrent = s, nClock = 2\<rparr> = Some (Inr st)"
    and "sol = bestSolution st" and "\<not> IsNull (bestSolution st)"
  using assms(1)
  unfolding address_utxos_amount_def Let_def assms(2) sum.case assms(3) assms(4)
  by (auto split: if_splits option.splits sum.splits)

lemma single_slice_walk:
  assumes r: "address_utxos_amount S req = Some (Inr sol)"
    and det: "\<not> fRandom req"
    and key: "GetIndexKey S (addrStr req) = Some (hashBytes, type)"
    and cnt: "GetAddressUnspentCount S hashBytes type = Some c"
    and c: "c \<le> nUtxosSlice"
    and sl: "GetAddressUnspent S hashBytes type 0 c = Some outputs"
  shows "\<exists>unlocked st.
           filter_locked (chainActive S) (addrStr req) outputs = Inr unlocked
           \<and> IsNull (bestSolution st) \<and> currentSolution st = SetNull
           \<and> sol = bestSolution (walk S req (GetTimeMicros S 0) (Height (chainActive S))
                                   (sort_HTL unlocked) st)
           \<and> \<not> IsNull sol"
proof -
  let ?t0 = "GetTimeMicros S 0"
  let ?h = "Height (chainActive S)"
  let ?st0 = "\<lparr>currentSolution = SetNull, bestSolution = SetNull, fTimedOut = False,
              nPageCurrent = 0, nClock = 2\<rparr>"
  let ?st1 = "\<lparr>currentSolution = SetNull, bestSolution = SetNull, fTimedOut = False,
              nPageCurrent = 0, nClock = 3\<rparr>"
  have cc: "GetUTXOCount S (addrStr req) = Inr c" by (simp add: GetUTXOCount_def key cnt)
  have c0: "c \<noteq> 0"
  proof
    assume "c = 0"
    with r show False by (simp add: address_utxos_amount_def cc)
  qed
  have p: "c div nUtxosSlice + (if c mod nUtxosSlice \<noteq> 0 then 1 else 0) = Suc 0"
    using c c0 by (cases "c = 2000") (auto simp: nUtxosSlice_def)
  have g: "GetRand S (Suc 0) = 0" by (simp add: GetRand_def)
  have lim: "(if c mod nUtxosSlice \<noteq> 0 \<and> (0::nat) mod Suc 0 = Suc 0 - 1
              then c mod nUtxosSlice else nUtxosSlice) = c"
    using c c0 by (cases "c = 2000") (auto simp: nUtxosSlice_def)
  have gu: "GetUTXOs S (addrStr req) 0 c = Inr outputs" by (simp add: GetUTXOs_def key sl)
  have n0: "IsNull SetNull" by (simp add: IsNull_def SetNull_def)
  obtain st where l: "select_loop (Suc 0) S req ?t0 ?h c (Suc 0) 0 ?st0 = Some (Inr st)"
    and b: "sol = bestSolution st" and nn: "\<not> IsNull (bestSolution st)"
    by (rule address_utxos_amount_Inr [OF r cc p g])
  have sr: "slice_round S req ?t0 ?h c (Suc 0) ?st0
     = (if GetTimeMicros S 2 - ?t0 > nMatchTimeoutMicros then Inr (True, ?st1)
        else case filter_locked (chainActive S) (addrStr req) outputs of
               Inl e \<Rightarrow> Inl e
             | Inr unlocked \<Rightarrow>
                 (let st = walk S req ?t0 ?h (sort_HTL unlocked) ?st1
                  in if GetTimeMicros S (nClock st) - ?t0 > nMatchTimeoutMicros
                     then Inr (True, st\<lparr>nClock := nClock st + 1, fTimedOut := True\<rparr>)
                     else Inr (False, st\<lparr>nClock := nClock st + 1\<rparr>)))"
    using det lim gu by (simp add: slice_round_def Let_def split: sum.splits)
  show ?thesis
  proof (cases "filter_locked (chainActive S) (addrStr req) outputs")
    case (Inl e)
    with l nn show ?thesis
      by (auto simp: sr n0 split: if_splits)
  next
    case (Inr unlocked)
    let ?st2 = "walk S req ?t0 ?h (sort_HTL unlocked) ?st1"
    have "bestSolution st = bestSolution ?st2"
      using l nn Inr n0
      by (auto simp: sr Let_def split: if_splits)
    with b nn Inr n0 show ?thesis
      by (intro exI [of _ unlocked] exI [of _ ?st1]) simp
  qed
qed

lemma sorted_prefix_is_best:
  assumes srt: "sorted (map (\<lambda>u. - satoshis (snd u)) E)"
    and dT: "distinct T" and dE: "distinct E" and sub: "set T \<subseteq> set E"
  shows "sum_list (map (\<lambda>u. satoshis (snd u)) T)
           \<le> sum_list (map (\<lambda>u. satoshis (snd u)) (take (length T) E))"
proof -
  let ?f = "\<lambda>u. satoshis (snd u)"
  have "mset_set (set T) \<subseteq># mset_set (set E)" using sub by simp
  then have m: "mset T \<subseteq># mset E"
    by (simp only: mset_set_set [OF dT] mset_set_set [OF dE])
  then have i: "image_mset ?f (mset T) \<subseteq># mset (map ?f E)"
    by (simp add: image_mset_subseteq_mono)
  have s: "sorted (map uminus (map ?f E))" using srt by (simp add: comp_def)
  from sum_mset_le_take [OF s i]
  have "sum_mset (image_mset ?f (mset T)) \<le> sum_list (take (length T) (map ?f E))" by simp
  moreover have "sum_mset (image_mset ?f (mset T)) = sum_list (map ?f T)"
    by (metis mset_map sum_mset_sum_list)
  ultimately show ?thesis by (simp add: take_map)
qed

lemma single_slice_minimal:
  assumes r: "address_utxos_amount S req = Some (Inr sol)"
    and det: "\<not> fRandom req"
    and pos: "0 < expectedAmount req"
    and key: "GetIndexKey S (addrStr req) = Some (hashBytes, type)"
    and cnt: "GetAddressUnspentCount S hashBytes type = Some c"
    and c: "c \<le> nUtxosSlice"
    and sl: "GetAddressUnspent S hashBytes type 0 c = Some outputs"
    and dist: "distinct (map outpoint outputs)"
    and dT: "distinct T"
    and sub: "set T \<subseteq> set (candidates S req outputs)"
    and cov: "covers req T"
  shows "length (vecUtxos sol) \<le> length T"
proof (rule ccontr)
  assume "\<not> length (vecUtxos sol) \<le> length T"
  then have lt: "length T < length (vecUtxos sol)" by simp
  let ?h = "Height (chainActive S)"
  let ?t0 = "GetTimeMicros S 0"
  let ?f = "\<lambda>u. satoshis (snd u)"
  let ?P = "usable S req ?h"
  from single_slice_walk [OF r det key cnt c sl] obtain unlocked st where
    fl: "filter_locked (chainActive S) (addrStr req) outputs = Inr unlocked"
    and bn: "IsNull (bestSolution st)" and cur: "currentSolution st = SetNull"
    and sol: "sol = bestSolution (walk S req ?t0 ?h (sort_HTL unlocked) st)"
    and nn: "\<not> IsNull sol"
    by blast
  let ?ord = "sort_HTL unlocked"
  let ?E = "filter ?P ?ord"
  have un: "unlocked = filter (\<lambda>u. IsTimeLocked (chainActive S) (nBlockHeight (fst u))
                         (utxo_txhash (fst u)) (addrStr req) = Inr False) outputs"
    by (rule filter_locked_eq [OF fl])
  have du: "distinct (map outpoint unlocked)"
    unfolding un using dist by (rule distinct_map_filter)
  have dord: "distinct (map outpoint ?ord)" by (rule sort_HTL_distinct [OF du])
  have dtake: "\<And>k. distinct (map outpoint (take k ?ord))"
    using dord by (simp add: take_map [symmetric] distinct_take)
  have F: "\<And>k. foldl (offer S req ?h) SetNull (take k ?ord)
     = \<lparr>amount = sum_list (map ?f (filter ?P (take k ?ord))),
        fee = (if filter ?P (take k ?ord) = [] then 0
               else CalculateFee (int (length (filter ?P (take k ?ord))))),
        change = 0,
        vecUtxos = filter ?P (take k ?ord)\<rparr>"
    by (rule foldl_offer_SetNull [OF dtake])
  from walk_first_hit [OF bn nn [unfolded sol]] obtain n where
    n: "0 < n" "n \<le> length ?ord"
    and b: "sol = set_change req (foldl (offer S req ?h) SetNull (take n ?ord))"
    and first: "\<forall>m. 0 < m \<and> m < n \<longrightarrow>
                  \<not> reached req (foldl (offer S req ?h) SetNull (take m ?ord))"
    unfolding cur sol [symmetric] by blast
  have vs: "vecUtxos sol = filter ?P (take n ?ord)"
    unfolding b by (simp add: F set_change_def)
  let ?m = "length T"
  have "?m \<le> length (filter ?P (take n ?ord))" using lt vs by simp
  from filter_take_count [OF this] obtain n' where
    n': "n' \<le> n" and cnt': "length (filter ?P (take n' ?ord)) = ?m"
    by blast
  have "n' \<noteq> n" using cnt' lt vs by auto
  with n' have n'lt: "n' < n" by simp
  have Tne: "T \<noteq> []"
  proof
    assume "T = []"
    with cov have "expectedAmount req + CalculateFee 0 \<le> 0" by (simp add: covers_def)
    with pos CalculateFee_floor [of 0] show False by simp
  qed
  then have mpos: "0 < ?m" by simp
  have n'pos: "0 < n'"
  proof (rule ccontr)
    assume "\<not> 0 < n'"
    then have "n' = 0" by simp
    with cnt' mpos show False by simp
  qed
  have pre: "filter ?P (take n' ?ord) = take ?m ?E"
    using filter_take_prefix [of ?P n' ?ord] cnt' by simp
  have ne: "filter ?P (take n' ?ord) \<noteq> []" using cnt' mpos by auto
  have setE: "set (candidates S req outputs) = set ?E"
    by (auto simp: candidates_def un sort_HTL_def)
  have dE: "distinct ?E"
    using dord by (simp add: distinct_map)
  have srtE: "sorted (map (\<lambda>u. - satoshis (snd u)) ?E)"
    using sort_HTL_sorted [of unlocked] by (rule sorted_filter)
  have "sum_list (map ?f T) \<le> sum_list (map ?f (take ?m ?E))"
    by (rule sorted_prefix_is_best [OF srtE dT dE]) (use sub setE in simp)
  with cov have "expectedAmount req + CalculateFee (int ?m)
                   \<le> sum_list (map ?f (take ?m ?E))"
    by (simp add: covers_def)
  then have "reached req (foldl (offer S req ?h) SetNull (take n' ?ord))"
    using ne cnt' by (simp add: F reached_def pre)
  with first n'pos n'lt show False by blast
qed

lemma filter_locked_error:
  "filter_locked ch a us = Inl e \<Longrightarrow>
     e = Error BlockNotFound ''Can't read block from disk.''
     \<or> e = Error TxNotFound ''Can't find Tx ID in block''"
proof (induction us)
  case Nil
  then show ?case by simp
next
  case (Cons u us)
  show ?case
  proof (cases "IsTimeLocked ch (nBlockHeight (fst u)) (utxo_txhash (fst u)) a")
    case (Inl e')
    then have "e = e'" using Cons.prems by simp
    with Inl show ?thesis
      by (auto simp: IsTimeLocked_def Let_def split: option.splits if_splits)
  next
    case (Inr l)
    with Cons.prems have "filter_locked ch a us = Inl e" by (auto split: sum.splits)
    then show ?thesis by (rule Cons.IH)
  qed
qed

lemma slice_round_error:
  "slice_round S req t0 h c p st = Inl e \<Longrightarrow> e \<noteq> Error BalanceInsufficient msg"
  by (auto simp: slice_round_def Let_def GetUTXOs_def
           split: if_splits sum.splits option.splits prod.splits dest!: filter_locked_error)

lemma slice_round_break:
  assumes "\<forall>k. \<not> GetTimeMicros S k - t0 > nMatchTimeoutMicros"
    and "slice_round S req t0 h c p st = Inr (True, st')"
  shows "\<not> IsNull (bestSolution st')"
  using assms by (auto simp: slice_round_def Let_def split: if_splits sum.splits)

lemma select_loop_pages:
  assumes nt: "\<forall>k. \<not> GetTimeMicros S k - t0 > nMatchTimeoutMicros"
  shows "select_loop n S req t0 h c p s st = Some (Inr st') \<Longrightarrow>
     nPageCurrent st = s + k \<Longrightarrow> k + n = p \<Longrightarrow>
     \<not> IsNull (bestSolution st') \<or> nPageCurrent st' = s + p"
proof (induction n arbitrary: st k)
  case 0
  then show ?case by simp
next
  case (Suc n)
  from Suc.prems(1) obtain b st1 where r: "slice_round S req t0 h c p st = Inr (b, st1)"
    by (auto split: sum.splits)
  have pc: "nPageCurrent st1 = s + k"
    using r Suc.prems(2)
    by (auto simp: slice_round_def Let_def walk_nPageCurrent split: if_splits sum.splits)
  show ?case
  proof (cases b)
    case True
    with r have r': "slice_round S req t0 h c p st = Inr (True, st1)" by simp
    from r' Suc.prems(1) have "st' = st1" by simp
    with slice_round_break [OF nt r'] show ?thesis by simp
  next
    case False
    let ?st = "st1\<lparr>nPageCurrent := nPageCurrent st1 + 1\<rparr>"
    show ?thesis
    proof (cases "nPageCurrent ?st mod p \<noteq> s")
      case True
      with r False Suc.prems(1)
      have l: "select_loop n S req t0 h c p s ?st = Some (Inr st')" by (simp add: Let_def)
      show ?thesis
        by (rule Suc.IH [OF l, of "k + 1"]) (use pc Suc.prems(3) in simp_all)
    next
      case stop: False
      with r False Suc.prems(1) have e: "st' = ?st" by (simp add: Let_def)
      have "n = 0"
      proof (rule ccontr)
        assume "n \<noteq> 0"
        then have d: "k + 1 < p" using Suc.prems(3) by simp
        have eq: "(s + (k + 1)) mod p = s" using stop pc by (simp add: add.assoc)
        have "(s + (k + 1)) mod p < p" using d by simp
        with eq have sp: "s < p" by simp
        show False
        proof (cases "s + (k + 1) < p")
          case True
          with eq show False by simp
        next
          case False
          then have "(s + (k + 1)) mod p = (s + (k + 1) - p) mod p"
            by (simp add: mod_if)
          also have "\<dots> = s + (k + 1) - p" using sp d by simp
          finally show False using eq False d by simp
        qed
      qed
      with Suc.prems(3) pc e show ?thesis by simp
    qed
  qed
qed


lemma next_page_differs:
  fixes s p :: nat
  assumes "s < p" and "2 \<le> p"
  shows "(s + p + 1) mod p \<noteq> s"
proof -
  have "(s + p + 1) mod p = (s + 1) mod p"
    by (metis add.assoc add.commute mod_add_self1)
  also have "\<dots> \<noteq> s"
  proof (cases "s + 1 < p")
    case True
    then show ?thesis by simp
  next
    case False
    with assms have "s + 1 = p" by simp
    then have "(s + 1) mod p = 0" by simp
    with assms \<open>s + 1 = p\<close> show ?thesis by simp
  qed
  finally show ?thesis .
qed

lemma full_scan_of_several_slices:
  assumes cnt: "GetUTXOCount S (addrStr req) = Inr c"
    and big: "nUtxosSlice < c"
    and nt: "\<forall>k. \<not> GetTimeMicros S k - GetTimeMicros S 0 > nMatchTimeoutMicros"
  shows "address_utxos_amount S req
           \<noteq> Some (Inl (Error BalanceInsufficient ''Requested amount exceeds balance''))"
proof
  assume r: "address_utxos_amount S req
           = Some (Inl (Error BalanceInsufficient ''Requested amount exceeds balance''))"
  let ?p = "c div nUtxosSlice + (if c mod nUtxosSlice \<noteq> 0 then 1 else 0)"
  let ?s = "GetRand S ?p"
  let ?st0 = "\<lparr>currentSolution = SetNull, bestSolution = SetNull, fTimedOut = False,
              nPageCurrent = ?s, nClock = 2\<rparr>"
  let ?loop = "select_loop ?p S req (GetTimeMicros S 0) (Height (chainActive S)) c ?p ?s ?st0"
  have c0: "c \<noteq> 0" using big by auto
  have p2: "2 \<le> ?p"
  proof (cases "c mod nUtxosSlice = 0")
    case True
    then obtain q where q: "c = nUtxosSlice * q" by auto
    with big have "2 \<le> q" by (cases q) (auto simp: nUtxosSlice_def)
    with q show ?thesis by (simp add: nUtxosSlice_def)
  next
    case False
    have "1 \<le> c div nUtxosSlice" using big by (simp add: nUtxosSlice_def)
    with False show ?thesis by simp
  qed
  have "0 < ?p" using p2 by linarith
  then have sp: "?s < ?p" unfolding GetRand_def by (rule mod_less_divisor)
  from r cnt c0 have
    cases: "(\<exists>e. ?loop = Some (Inl e) \<and> e = Error BalanceInsufficient ''Requested amount exceeds balance'')
            \<or> (\<exists>st. ?loop = Some (Inr st) \<and> (nPageCurrent st + 1) mod ?p = ?s
                  \<and> IsNull (bestSolution st) \<and> \<not> fTimedOut st)"
    unfolding address_utxos_amount_def Let_def
    by (auto split: option.splits sum.splits if_splits)
  then show False
  proof
    assume "\<exists>e. ?loop = Some (Inl e) \<and> e = Error BalanceInsufficient ''Requested amount exceeds balance''"
    then have l: "?loop = Some (Inl (Error BalanceInsufficient ''Requested amount exceeds balance''))"
      by simp
    have "\<And>n st. select_loop n S req (GetTimeMicros S 0) (Height (chainActive S)) c ?p ?s st
            \<noteq> Some (Inl (Error BalanceInsufficient ''Requested amount exceeds balance''))"
    proof -
      fix n st
      show "select_loop n S req (GetTimeMicros S 0) (Height (chainActive S)) c ?p ?s st
            \<noteq> Some (Inl (Error BalanceInsufficient ''Requested amount exceeds balance''))"
      proof (induction n arbitrary: st)
        case 0
        then show ?case by simp
      next
        case (Suc n)
        show ?case
          using Suc.IH slice_round_error [of S req "GetTimeMicros S 0" "Height (chainActive S)" c ?p st]
          by (auto simp: Let_def split: sum.splits prod.splits if_splits)
      qed
    qed
    with l show False by blast
  next
    assume "\<exists>st. ?loop = Some (Inr st) \<and> (nPageCurrent st + 1) mod ?p = ?s
                  \<and> IsNull (bestSolution st) \<and> \<not> fTimedOut st"
    then obtain st where l: "?loop = Some (Inr st)"
      and m: "(nPageCurrent st + 1) mod ?p = ?s" and n: "IsNull (bestSolution st)"
      by blast
    from select_loop_pages [OF nt l, of 0] n have "nPageCurrent st = ?s + ?p" by simp
    with m next_page_differs [OF sp p2] show False by simp
  qed
qed

lemma ex_candidates:
  "candidates (ex_solver us) ex_request [mk_utxo i a] = [mk_utxo i a]"
  by (simp add: candidates_def chainActive_ex ex_request_fields ex_IsTimeLocked_mk_utxo usable_ex)

lemma ex_candidates_scenario:
  "candidates (ex_solver us) ex_request
      [mk_utxo 2 100000000, mk_utxo 3 500000000, mk_utxo 4 300000000]
     = [mk_utxo 2 100000000, mk_utxo 3 500000000, mk_utxo 4 300000000]"
  by (simp add: candidates_def chainActive_ex ex_request_fields ex_IsTimeLocked_mk_utxo usable_ex)

text \<open>
  Claim C1, amended. For an address whose unspent outputs fit in one slice (at most 2000),
  a solution returned in deterministic mode for a positive requested amount uses no more
  inputs than any set of candidates of that slice that covers the request. In particular,
  for the outputs of 100000000, 500000000 and 300000000 satoshis and the requested amount
  600000000 the solver selects the outputs of 500000000 and 300000000, with the fee for two
  inputs and the change 500000000 + 300000000 - 600000000 - fee.
\<close>

theorem single_slice_selection_is_minimal:
  assumes "address_utxos_amount S req = Some (Inr sol)"
    and "\<not> fRandom req"
    and "0 < expectedAmount req"
    and "GetIndexKey S (addrStr req) = Some (hashBytes, type)"
    and "GetAddressUnspentCount S hashBytes type = Some c"
    and "c \<le> nUtxosSlice"
    and "GetAddressUnspent S hashBytes type 0 c = Some outputs"
    and "distinct (map outpoint outputs)"
    and "distinct T"
    and "set T \<subseteq> set (candidates S req outputs)"
    and "covers req T"
  shows "length (vecUtxos sol) \<le> length T
     \<and> address_utxos_amount
          (ex_solver [mk_utxo 2 100000000, mk_utxo 3 500000000, mk_utxo 4 300000000]) ex_request
         = Some (Inr \<lparr>amount = 500000000 + 300000000, fee = CalculateFee 2,
                      change = 500000000 + 300000000 - 600000000 - CalculateFee 2,
                      vecUtxos = [mk_utxo 3 500000000, mk_utxo 4 300000000]\<rparr>)"
  using single_slice_minimal [OF assms] by (simp add: ex_scenario CalculateFee_2)

theorem single_slice_selection_is_minimal_witness:
  "address_utxos_amount
      (ex_solver [mk_utxo 2 100000000, mk_utxo 3 500000000, mk_utxo 4 300000000]) ex_request
     = Some (Inr \<lparr>amount = 800000000, fee = 100000, change = 199900000,
                  vecUtxos = [mk_utxo 3 500000000, mk_utxo 4 300000000]\<rparr>)
   \<and> \<not> fRandom ex_request \<and> 0 < expectedAmount ex_request
   \<and> GetIndexKey (ex_solver [mk_utxo 2 100000000, mk_utxo 3 500000000, mk_utxo 4 300000000])
        (addrStr ex_request) = Some (1, 0)
   \<and> GetAddressUnspentCount
        (ex_solver [mk_utxo 2 100000000, mk_utxo 3 500000000, mk_utxo 4 300000000]) 1 0 = Some 3
   \<and> 3 \<le> nUtxosSlice
   \<and> GetAddressUnspent
        (ex_solver [mk_utxo 2 100000000, mk_utxo 3 500000000, mk_utxo 4 300000000]) 1 0 0 3
       = Some [mk_utxo 2 100000000, mk_utxo 3 500000000, mk_utxo 4 300000000]
   \<and> distinct (map outpoint [mk_utxo 2 100000000, mk_utxo 3 500000000, mk_utxo 4 300000000])
   \<and> distinct [mk_utxo 2 100000000, mk_utxo 3 500000000]
   \<and> set [mk_utxo 2 100000000, mk_utxo 3 500000000]
        \<subseteq> set (candidates
                 (ex_solver [mk_utxo 2 100000000, mk_utxo 3 500000000, mk_utxo 4 300000000])
                 ex_request [mk_utxo 2 100000000, mk_utxo 3 500000000, mk_utxo 4 300000000])
   \<and> \<not> covers ex_request [mk_utxo 2 100000000, mk_utxo 3 500000000]
   \<and> covers ex_request [mk_utxo 3 500000000, mk_utxo 4 300000000]
   \<and> length (vecUtxos \<lparr>amount = 800000000, fee = 100000, change = 199900000,
                        vecUtxos = [mk_utxo 3 500000000, mk_utxo 4 300000000]\<rparr>)
        \<le> length [mk_utxo 3 500000000, mk_utxo 4 300000000]"
proof -
  let ?us = "[mk_utxo 2 100000000, mk_utxo 3 500000000, mk_utxo 4 300000000]"
  let ?S = "ex_solver ?us"
  let ?T = "[mk_utxo 3 500000000, mk_utxo 4 300000000]"
  have h2: "\<not> fRandom ex_request" and h3: "0 < expectedAmount ex_request"
    by (simp_all add: ex_request_fields)
  have h4: "GetIndexKey ?S (addrStr ex_request) = Some (1, 0)"
    by (simp add: ex_solver_def ex_request_fields)
  have h5: "GetAddressUnspentCount ?S 1 0 = Some 3" by (simp add: ex_solver_def)
  have h6: "3 \<le> nUtxosSlice" by (simp add: nUtxosSlice_def)
  have h7: "GetAddressUnspent ?S 1 0 0 3 = Some ?us" by (simp add: ex_solver_def)
  have h8: "distinct (map outpoint ?us)" by (simp add: outpoint_def mk_utxo_def)
  have h9: "distinct ?T" by (simp add: mk_utxo_def)
  have h10: "set ?T \<subseteq> set (candidates ?S ex_request ?us)"
    by (simp add: ex_candidates_scenario)
  have h11: "covers ex_request ?T"
    by (simp add: covers_def ex_request_fields mk_utxo_def CalculateFee_2)
  have o1: "distinct [mk_utxo 2 100000000, mk_utxo 3 500000000]" by (simp add: mk_utxo_def)
  have o2: "set [mk_utxo 2 100000000, mk_utxo 3 500000000]
              \<subseteq> set (candidates ?S ex_request ?us)"
    by (simp add: ex_candidates_scenario)
  have o3: "\<not> covers ex_request [mk_utxo 2 100000000, mk_utxo 3 500000000]"
    by (simp add: covers_def ex_request_fields mk_utxo_def CalculateFee_2)
  from single_slice_selection_is_minimal [OF ex_scenario h2 h3 h4 h5 h6 h7 h8 h9 h10 h11]
  show ?thesis using ex_scenario h2 h3 h4 h5 h6 h7 h8 o1 o2 o3 h11 by simp
qed

text \<open>
  Claim C1 as stated fails for an address with more than one slice. The running solution
  is kept from one slice to the next: after a slice of 2000 outputs of one satoshi, the
  output of 1000000000 satoshis in the second slice completes a solution of 2001 inputs,
  although that output alone, a candidate of a scanned slice, covers the request.
\<close>

theorem minimality_fails_across_slices:
  "address_utxos_amount (ex_solver (small_outputs @ [mk_utxo 2000 1000000000])) ex_request
     = Some (Inr \<lparr>amount = 1000002000, fee = 28900000, change = 371102000,
                  vecUtxos = small_outputs @ [mk_utxo 2000 1000000000]\<rparr>)
   \<and> \<not> fRandom ex_request
   \<and> GetUTXOs (ex_solver (small_outputs @ [mk_utxo 2000 1000000000])) (addrStr ex_request)
        2000 1 = Inr [mk_utxo 2000 1000000000]
   \<and> set [mk_utxo 2000 1000000000]
        \<subseteq> set (candidates (ex_solver (small_outputs @ [mk_utxo 2000 1000000000])) ex_request
                  [mk_utxo 2000 1000000000])
   \<and> covers ex_request [mk_utxo 2000 1000000000]
   \<and> \<not> length (vecUtxos \<lparr>amount = 1000002000, fee = 28900000, change = 371102000,
                          vecUtxos = small_outputs @ [mk_utxo 2000 1000000000]\<rparr>)
          \<le> length [mk_utxo 2000 1000000000]"
proof -
  have "covers ex_request [mk_utxo 2000 1000000000]"
    by (simp add: covers_def ex_request_fields mk_utxo_def CalculateFee_1)
  then show ?thesis
    by (simp add: ex_large_address ex_request_fields GetUTXOs_ex length_small_outputs
          ex_candidates)
qed

text \<open>
  Claim C2, evaluated. An address with 2001 outputs of one satoshi each holds 2001 satoshis,
  less than the requested 600000000. The clock stands still, both slices are scanned and no
  solution is found; the reply is \<open>TimedOut\<close>, not \<open>BalanceInsufficient\<close>. The test after the
  loop increments the page counter once more, so for two or more slices it never holds
  after a complete scan (lemma \<open>full_scan_of_several_slices\<close>).
\<close>

theorem full_scan_of_two_slices_reports_TimedOut:
  "address_utxos_amount (ex_solver (small_outputs @ [mk_utxo 2000 1])) ex_request
     = Some (Inl (Error TimedOut ''No solution found''))
   \<and> GetTimeMicros (ex_solver (small_outputs @ [mk_utxo 2000 1])) = (\<lambda>k. 0)
   \<and> GetUTXOCount (ex_solver (small_outputs @ [mk_utxo 2000 1])) (addrStr ex_request) = Inr 2001
   \<and> sum_list (map (\<lambda>u. satoshis (snd u)) (small_outputs @ [mk_utxo 2000 1])) = 2001
   \<and> expectedAmount ex_request = 600000000"
  by (simp add: ex_small_address GetUTXOCount_ex ex_request_fields length_small_outputs
        sum_small_outputs)
     (simp add: ex_solver_def mk_utxo_def)

end
